theory Spec2Isabelle
  imports Main "HOL-Library.Word"
begin

section \<open>AFS server address lists (fs/afs/addr_list.c)\<close>

text \<open>
  A shallow embedding of the address-list code of the AFS client: the list of
  transport addresses of a server, the ordered merge of IPv4 and IPv6 entries, the
  parser of delimited text addresses, and the cursor that walks a list.
\<close>

subsection \<open>Machine types and byte order\<close>

type_synonym u8 = "8 word"
type_synonym u16 = "16 word"
type_synonym u32 = "32 word"

text \<open>
  Modelled from the spec: the byte-order helpers \<open>ntohl\<close>, \<open>ntohs\<close> and \<open>htons\<close>, which
  are not part of this source file; addresses are "compared as unsigned 32-bit host-order
  integers". A \<open>__be32\<close> is four bytes in memory order and a \<open>__be16\<close> two; the first
  byte is the most significant one. \<open>ntohl\<close> and \<open>ntohs\<close> read the host number they
  spell, \<open>htons\<close> writes it, whatever the byte order of the machine is.
\<close>

type_synonym be32 = "u8 \<times> u8 \<times> u8 \<times> u8"
type_synonym be16 = "u8 \<times> u8"

fun ntohl :: "be32 \<Rightarrow> u32" where
  "ntohl (b0, b1, b2, b3) =
     ucast b0 * 16777216 + ucast b1 * 65536 + ucast b2 * 256 + ucast b3"

fun ntohs :: "be16 \<Rightarrow> u16" where
  "ntohs (b0, b1) = ucast b0 * 256 + ucast b1"

definition htons :: "u16 \<Rightarrow> be16" where
  "htons p = (ucast (drop_bit 8 p), ucast p)"

text \<open>
  An IPv6 address is the array \<open>__be32 x[4]\<close> of the parser, sixteen bytes in all;
  \<open>in6_bytes\<close> lists them in memory order.
\<close>

type_synonym in6_addr = "be32 \<times> be32 \<times> be32 \<times> be32"

fun be32_bytes :: "be32 \<Rightarrow> u8 list" where
  "be32_bytes (b0, b1, b2, b3) = [b0, b1, b2, b3]"

fun in6_bytes :: "in6_addr \<Rightarrow> u8 list" where
  "in6_bytes (w0, w1, w2, w3) =
     be32_bytes w0 @ be32_bytes w1 @ be32_bytes w2 @ be32_bytes w3"

text \<open>
  Modelled from the spec: \<open>memcmp\<close>, which is not part of this source file, the "raw
  16-byte lexicographic comparison" of IPv6 addresses. Over two byte sequences of one
  length it is the sign of the first difference, bytes compared as unsigned, and 0 when
  there is none.
\<close>

fun memcmp :: "u8 list \<Rightarrow> u8 list \<Rightarrow> int" where
  "memcmp (a # as) (b # bs) =
     (if a = b then memcmp as bs else if a < b then - 1 else 1)"
| "memcmp _ _ = 0"

subsection \<open>Constants of the headers\<close>

text \<open>
  Modelled from the spec: the address families, the socket type, the sizes of the two
  transport addresses and the error codes (invalid format, allocation failure,
  destination address required) come from headers that are not part of this source
  file. Of the numbers only this is used: the error codes differ from one another.
\<close>

datatype sa_family = AF_UNSPEC | AF_INET | AF_INET6 | AF_RXRPC

datatype sock_type = SOCK_NONE | SOCK_DGRAM

definition sizeof_sin :: nat where
  "sizeof_sin = 16"

definition sizeof_sin6 :: nat where
  "sizeof_sin6 = 28"

definition EINVAL :: int where
  "EINVAL = 22"

definition ENOMEM :: int where
  "ENOMEM = 12"

definition EDESTADDRREQ :: int where
  "EDESTADDRREQ = 89"

subsection \<open>Endpoints and address lists\<close>

text \<open>
  Modelled from the spec: \<open>struct sockaddr_rxrpc\<close>, the endpoint, declared in a header
  that is not part of this source file. The transport address is a union of
  \<open>sockaddr_in\<close> and \<open>sockaddr_in6\<close>: the family and the port of both lie at the same
  offsets, so they are one field each; \<open>sin_addr\<close> (which shares its bytes with the
  IPv6 flow label) and \<open>sin6_addr\<close> are separate bytes of the union, and writing one
  leaves the other as it was.
\<close>

record sockaddr_rxrpc =
  srx_family :: sa_family
  srx_service :: u16
  transport_type :: sock_type
  transport_len :: nat
  sin_family :: sa_family
  sin_port :: be16
  sin_addr :: be32
  sin6_addr :: in6_addr

text \<open>
  Modelled from the spec: \<open>struct afs_addr_list\<close> (declared in \<open>internal.h\<close>, which is
  not part of this source file), the fields this file touches: the reference count, the
  number of populated entries, the index of the address last known good, the number of
  IPv4 entries, the number of slots and the slots. \<open>addrs\<close> is the flexible array
  at the end of the structure; it has \<open>max_addrs\<close> slots, the first \<open>nr_addrs\<close> of them
  populated. The counters are unsigned shorts; they are natural numbers here, since no
  operation below takes one beyond \<open>max_addrs\<close>.
\<close>

record afs_addr_list =
  usage :: nat
  nr_addrs :: nat
  index :: nat
  nr_ipv4 :: nat
  max_addrs :: nat
  addrs :: "sockaddr_rxrpc list"

text \<open>
  Modelled from the spec: \<open>memmove\<close>, which is not part of this source file; it is how
  a merge shifts "later entries right by one slot to open a gap".
  \<open>memmove(base + i + 1, base + i, n * sizeof(base[0]))\<close> on the array: the slots
  \<open>i + 1 .. i + n\<close> take the old contents of \<open>i .. i + n - 1\<close>, every other slot keeps
  its own.
\<close>

definition memmove_up :: "'a list \<Rightarrow> nat \<Rightarrow> nat \<Rightarrow> 'a list" where
  "memmove_up xs i n =
     map (\<lambda>k. if i < k \<and> k \<le> i + n then xs ! (k - 1) else xs ! k) [0..<length xs]"

subsection \<open>Merging an entry into a list\<close>

text \<open>
  The scan of \<open>afs_merge_fs_addr4\<close> from slot \<open>i\<close>: \<open>None\<close> when the entry is already
  there (the function returns), otherwise the slot at which the loop stops.
\<close>

function scan4 :: "afs_addr_list \<Rightarrow> u32 \<Rightarrow> u16 \<Rightarrow> nat \<Rightarrow> nat option" where
  "scan4 alist addr port i =
     (if i < nr_ipv4 alist then
        (let a = addrs alist ! i;
             a_addr = ntohl (sin_addr a);
             a_port = ntohs (sin_port a)
         in if addr = a_addr \<and> port = a_port then None
            else if addr = a_addr \<and> port < a_port then Some i
            else if addr < a_addr then Some i
            else scan4 alist addr port (i + 1))
      else Some i)"
  by pat_completeness auto
termination
  by (relation "measure (\<lambda>(alist, addr, port, i). nr_ipv4 alist - i)") auto

declare scan4.simps [simp del]

definition afs_merge_fs_addr4 :: "afs_addr_list \<Rightarrow> be32 \<Rightarrow> u16 \<Rightarrow> afs_addr_list" where
  "afs_merge_fs_addr4 alist xdr port =
     (if nr_addrs alist \<ge> max_addrs alist then alist
      else case scan4 alist (ntohl xdr) port 0 of
        None \<Rightarrow> alist
      | Some i \<Rightarrow>
          (let moved = (if i < nr_addrs alist
                        then memmove_up (addrs alist) i (nr_addrs alist - i)
                        else addrs alist);
               srx = (moved ! i)\<lparr>transport_len := sizeof_sin,
                                sin_family := AF_INET,
                                sin_port := htons port,
                                sin_addr := xdr\<rparr>
           in alist\<lparr>addrs := moved[i := srx],
                    nr_ipv4 := nr_ipv4 alist + 1,
                    nr_addrs := nr_addrs alist + 1\<rparr>))"

text \<open>The scan of \<open>afs_merge_fs_addr6\<close>, over the IPv6 entries.\<close>

function scan6 :: "afs_addr_list \<Rightarrow> in6_addr \<Rightarrow> u16 \<Rightarrow> nat \<Rightarrow> nat option" where
  "scan6 alist xdr port i =
     (if i < nr_addrs alist then
        (let a = addrs alist ! i;
             a_port = ntohs (sin_port a);
             diff = memcmp (in6_bytes xdr) (in6_bytes (sin6_addr a))
         in if diff = 0 \<and> port = a_port then None
            else if diff = 0 \<and> port < a_port then Some i
            else if diff < 0 then Some i
            else scan6 alist xdr port (i + 1))
      else Some i)"
  by pat_completeness auto
termination
  by (relation "measure (\<lambda>(alist, xdr, port, i). nr_addrs alist - i)") auto

declare scan6.simps [simp del]

definition afs_merge_fs_addr6 :: "afs_addr_list \<Rightarrow> in6_addr \<Rightarrow> u16 \<Rightarrow> afs_addr_list" where
  "afs_merge_fs_addr6 alist xdr port =
     (if nr_addrs alist \<ge> max_addrs alist then alist
      else case scan6 alist xdr port (nr_ipv4 alist) of
        None \<Rightarrow> alist
      | Some i \<Rightarrow>
          (let moved = (if i < nr_addrs alist
                        then memmove_up (addrs alist) i (nr_addrs alist - i)
                        else addrs alist);
               srx = (moved ! i)\<lparr>transport_len := sizeof_sin6,
                                sin_family := AF_INET6,
                                sin_port := htons port,
                                sin6_addr := xdr\<rparr>
           in alist\<lparr>addrs := moved[i := srx],
                    nr_addrs := nr_addrs alist + 1\<rparr>))"

subsection \<open>The list invariant\<close>

text \<open>
  The key an entry is ordered by: the address and the port in host order. IPv4
  addresses compare as unsigned 32-bit numbers, IPv6 addresses by \<open>memcmp\<close> over
  their sixteen bytes; the port breaks ties.
\<close>

definition key4 :: "sockaddr_rxrpc \<Rightarrow> u32 \<times> u16" where
  "key4 a = (ntohl (sin_addr a), ntohs (sin_port a))"

definition key6 :: "sockaddr_rxrpc \<Rightarrow> in6_addr \<times> u16" where
  "key6 a = (sin6_addr a, ntohs (sin_port a))"

fun key_less4 :: "u32 \<times> u16 \<Rightarrow> u32 \<times> u16 \<Rightarrow> bool" where
  "key_less4 (a, p) (b, q) \<longleftrightarrow> a < b \<or> (a = b \<and> p < q)"

fun key_less6 :: "in6_addr \<times> u16 \<Rightarrow> in6_addr \<times> u16 \<Rightarrow> bool" where
  "key_less6 (a, p) (b, q) \<longleftrightarrow>
     memcmp (in6_bytes a) (in6_bytes b) < 0 \<or>
     (memcmp (in6_bytes a) (in6_bytes b) = 0 \<and> p < q)"

definition is_ipv4 :: "sockaddr_rxrpc \<Rightarrow> bool" where
  "is_ipv4 a \<longleftrightarrow> sin_family a = AF_INET \<and> transport_len a = sizeof_sin"

definition is_ipv6 :: "sockaddr_rxrpc \<Rightarrow> bool" where
  "is_ipv6 a \<longleftrightarrow> sin_family a = AF_INET6 \<and> transport_len a = sizeof_sin6"

text \<open>The two segments of the populated part: slots \<open>[0, nr_ipv4)\<close> and \<open>[nr_ipv4, nr_addrs)\<close>.\<close>

definition ipv4_entries :: "afs_addr_list \<Rightarrow> sockaddr_rxrpc list" where
  "ipv4_entries alist = take (nr_ipv4 alist) (addrs alist)"

definition ipv6_entries :: "afs_addr_list \<Rightarrow> sockaddr_rxrpc list" where
  "ipv6_entries alist =
     take (nr_addrs alist - nr_ipv4 alist) (drop (nr_ipv4 alist) (addrs alist))"

text \<open>
  The shape of an allocated list: the counters are in order and the array has
  \<open>max_addrs\<close> slots, so every slot a merge writes exists.
\<close>

definition alist_slots :: "afs_addr_list \<Rightarrow> bool" where
  "alist_slots alist \<longleftrightarrow>
     nr_ipv4 alist \<le> nr_addrs alist \<and> nr_addrs alist \<le> max_addrs alist \<and>
     length (addrs alist) = max_addrs alist"

definition alist_inv :: "afs_addr_list \<Rightarrow> bool" where
  "alist_inv alist \<longleftrightarrow>
     alist_slots alist \<and>
     list_all is_ipv4 (ipv4_entries alist) \<and>
     sorted_wrt key_less4 (map key4 (ipv4_entries alist)) \<and>
     distinct (map key4 (ipv4_entries alist)) \<and>
     list_all is_ipv6 (ipv6_entries alist) \<and>
     sorted_wrt key_less6 (map key6 (ipv6_entries alist)) \<and>
     distinct (map key6 (ipv6_entries alist))"

subsection \<open>Allocation\<close>

text \<open>
  Modelled from the spec: what this file takes from the rest of the kernel, as
  parameters of the functions below. \<open>AFS_MAX_ADDRESSES\<close> (the ceiling on the number of
  addresses of a list) is a macro of
  \<open>internal.h\<close>; \<open>kzalloc_ok\<close> says whether the one allocation of a call succeeds;
  \<open>in4_pton\<close> and \<open>in6_pton\<close> (net/core/utils.c) are called with a source of a given
  length, no delimiter (\<open>-1\<close>) and an end pointer: here they map the source characters to
  \<open>None\<close> when they return 0, or to the address bytes written and the offset of the end
  pointer from the source when they return 1.
\<close>

record kernel =
  AFS_MAX_ADDRESSES :: nat
  kzalloc_ok :: bool
  in4_pton :: "string \<Rightarrow> (be32 \<times> nat) option"
  in6_pton :: "string \<Rightarrow> (in6_addr \<times> nat) option"

text \<open>
  \<open>afs_alloc_addrlist\<close>: \<open>None\<close> is the \<open>NULL\<close> of a failed allocation. The memory is
  zeroed, then every slot is given the fields of \<open>slot_template\<close>, those of an IPv6
  endpoint with no address yet.
\<close>

definition slot_template :: "u16 \<Rightarrow> u16 \<Rightarrow> sockaddr_rxrpc" where
  "slot_template service port =
     \<lparr>srx_family = AF_RXRPC,
      srx_service = service,
      transport_type = SOCK_DGRAM,
      transport_len = sizeof_sin6,
      sin_family = AF_INET6,
      sin_port = htons port,
      sin_addr = (0, 0, 0, 0),
      sin6_addr = ((0, 0, 0, 0), (0, 0, 0, 0), (0, 0, 0, 0), (0, 0, 0, 0))\<rparr>"

definition afs_alloc_addrlist :: "kernel \<Rightarrow> nat \<Rightarrow> u16 \<Rightarrow> u16 \<Rightarrow> afs_addr_list option" where
  "afs_alloc_addrlist k nr service port =
     (let nr = (if nr > AFS_MAX_ADDRESSES k then AFS_MAX_ADDRESSES k else nr)
      in if \<not> kzalloc_ok k then None
         else Some \<lparr>usage = 1, nr_addrs = 0, index = 0, nr_ipv4 = 0, max_addrs = nr,
                    addrs = replicate nr (slot_template service port)\<rparr>)"

subsection \<open>Parsing a text of delimited addresses\<close>

text \<open>
  The text is the \<open>len\<close> characters at \<open>text\<close>; a pointer into it is its offset, and
  \<open>end\<close> is \<open>length text\<close>.
\<close>

text \<open>
  Modelled from the spec: \<open>memchr\<close> and \<open>isdigit\<close>, which are not part of this source
  file; they decide whether the text "contains" a character and what the digits of a
  port are. \<open>memchr text p c n\<close> is \<open>memchr(text + p, c, n)\<close>: the offset of the first
  \<open>c\<close> among the \<open>n\<close> characters from \<open>p\<close>, or \<open>None\<close> for \<open>NULL\<close>. \<open>isdigit\<close> holds of
  the ten decimal digits.
\<close>

fun memchr :: "string \<Rightarrow> nat \<Rightarrow> char \<Rightarrow> nat \<Rightarrow> nat option" where
  "memchr text p c 0 = None"
| "memchr text p c (Suc n) = (if text ! p = c then Some p else memchr text (Suc p) c n)"

definition isdigit :: "char \<Rightarrow> bool" where
  "isdigit c \<longleftrightarrow> 48 \<le> (of_char c :: nat) \<and> (of_char c :: nat) \<le> 57"

text \<open>
  The first pass counts the addresses. The block that steps over a bracketed literal
  either fails, or leaves the loop (\<open>break\<close>), or goes on from the character after the
  closing bracket.
\<close>

datatype bracket = Malformed | Leave | Goes nat

definition skip_bracket :: "string \<Rightarrow> nat \<Rightarrow> bracket" where
  "skip_bracket text p =
     (if text ! p = CHR ''[''
      then (if p + 1 = length text then Malformed
            else case memchr text (p + 1) CHR '']'' (length text - (p + 1)) of
                   None \<Rightarrow> Malformed
                 | Some r \<Rightarrow> if r + 1 \<ge> length text then Leave else Goes (r + 1))
      else Goes p)"

text \<open>
  The counting loop from offset \<open>p\<close> with \<open>nr\<close> addresses counted so far; \<open>p\<close> is below
  \<open>end\<close> whenever the body is entered. The result is the error returned or the count
  the loop ends with; \<open>None\<close> says that the loop never ends. The \<open>continue\<close> taken at a
  delimiter goes to the test \<open>p < end\<close> of the \<open>do\<close> loop with \<open>p\<close> as it was. \<open>nr\<close> is
  an unsigned int.
\<close>

partial_function (option) count_addrs :: "string \<Rightarrow> char \<Rightarrow> nat \<Rightarrow> nat \<Rightarrow> (int + nat) option" where
  "count_addrs text delim p nr =
     (if text ! p = CHR 0x00 then Some (Inl (- EINVAL))
      else if text ! p = delim
      then (if p < length text then count_addrs text delim p nr else Some (Inr nr))
      else case skip_bracket text p of
             Malformed \<Rightarrow> Some (Inl (- EINVAL))
           | Leave \<Rightarrow> Some (Inr ((nr + 1) mod 2 ^ 32))
           | Goes p1 \<Rightarrow>
               (case memchr text p1 delim (length text - p1) of
                  None \<Rightarrow> Some (Inr ((nr + 1) mod 2 ^ 32))
                | Some r \<Rightarrow>
                    if r + 1 < length text
                    then count_addrs text delim (r + 1) ((nr + 1) mod 2 ^ 32)
                    else Some (Inr ((nr + 1) mod 2 ^ 32))))"

text \<open>The offsets at which a turn of the counting loop starts.\<close>

inductive count_at :: "string \<Rightarrow> char \<Rightarrow> nat \<Rightarrow> bool"
  for tx :: string and delim :: char where
  count_first: "count_at tx delim 0"
| count_next: "count_at tx delim p \<Longrightarrow> tx ! p \<noteq> CHR 0x00 \<Longrightarrow> tx ! p \<noteq> delim \<Longrightarrow>
     skip_bracket tx p = Goes p1 \<Longrightarrow> memchr tx p1 delim (length tx - p1) = Some r \<Longrightarrow>
     r + 1 < length tx \<Longrightarrow> count_at tx delim (r + 1)"

text \<open>
  The second pass extracts the addresses. \<open>scan_host\<close> is the \<open>for\<close> loop that looks for
  the end of a host that is not bracketed.
\<close>

function scan_host :: "string \<Rightarrow> char \<Rightarrow> nat \<Rightarrow> nat" where
  "scan_host text delim q =
     (if q < length text
      then (if text ! q = CHR ''+'' \<or> text ! q = delim then q
            else scan_host text delim (q + 1))
      else q)"
  by pat_completeness auto
termination
  by (relation "measure (\<lambda>(text, delim, q). length text - q)") auto

declare scan_host.simps [simp del]

text \<open>
  The \<open>do\<close> loop over the digits of a port, entered at a digit: \<open>None\<close> is the jump to
  \<open>bad_address\<close>, otherwise the offset after the digits and the port.
\<close>

function port_digits :: "string \<Rightarrow> nat \<Rightarrow> nat \<Rightarrow> (nat \<times> nat) option" where
  "port_digits text p xport =
     (let xport = xport * 10 + (of_char (text ! p) - 48)
      in if xport > 65535 then None
         else if p + 1 < length text \<and> isdigit (text ! (p + 1))
         then port_digits text (p + 1) xport
         else Some (p + 1, xport))"
  by pat_completeness auto
termination
  by (relation "measure (\<lambda>(text, p, xport). length text - p)") auto

declare port_digits.simps [simp del]

text \<open>What follows the host, from offset \<open>p\<close>: a port, a delimiter, or the end of the text.\<close>

definition port_part :: "string \<Rightarrow> char \<Rightarrow> nat \<Rightarrow> nat \<Rightarrow> (nat \<times> nat) option" where
  "port_part text delim port p =
     (if p < length text
      then (if text ! p = CHR ''+''
            then (if p + 1 \<ge> length text \<or> \<not> isdigit (text ! (p + 1)) then None
                  else port_digits text (p + 1) 0)
            else if text ! p = delim then Some (p + 1, port)
            else None)
      else Some (p, port))"

text \<open>The address a host parses to: \<open>in4_pton\<close> is tried first, then \<open>in6_pton\<close>.\<close>

datatype host = Host4 be32 | Host6 in6_addr

definition parse_host :: "kernel \<Rightarrow> string \<Rightarrow> (host \<times> nat) option" where
  "parse_host k src =
     (case in4_pton k src of
        Some (x, stop) \<Rightarrow> Some (Host4 x, stop)
      | None \<Rightarrow>
          (case in6_pton k src of
             Some (x, stop) \<Rightarrow> Some (Host6 x, stop)
           | None \<Rightarrow> None))"

text \<open>
  The host of the segment that starts at \<open>p\<close>, as the extraction loop cuts it out: the
  offsets \<open>(p, q)\<close> of its first character and of the character after it (\<open>q\<close> is
  \<open>NULL\<close>, here \<open>None\<close>, when a bracket is not closed), the characters between them,
  and the offset at which the loop goes on after the host.
\<close>

definition host_span :: "string \<Rightarrow> char \<Rightarrow> nat \<Rightarrow> (nat \<times> nat) option" where
  "host_span text delim p =
     (if text ! p = CHR ''[''
      then map_option (Pair (p + 1)) (memchr text (p + 1) CHR '']'' (length text - (p + 1)))
      else Some (p, scan_host text delim p))"

definition host_text :: "string \<Rightarrow> nat \<times> nat \<Rightarrow> string" where
  "host_text text span = take (snd span - fst span) (drop (fst span) text)"

definition after_host :: "string \<Rightarrow> nat \<Rightarrow> nat" where
  "after_host text q = (if q < length text \<and> text ! q = CHR '']'' then q + 1 else q)"

text \<open>
  One turn of the extraction loop at offset \<open>p\<close>, up to the merge: a delimiter is
  stepped over, or an address and its port are read, or the turn ends at
  \<open>bad_address\<close>. When a bracket is not closed, \<open>q\<close> is \<open>NULL\<close>; the end pointer the
  parsers set is never \<open>NULL\<close>, so the test \<open>stop != q\<close> sends that turn to
  \<open>bad_address\<close> whatever they return.
\<close>

datatype segment = Bad | Skip nat | Entry nat host nat

definition extract_segment :: "kernel \<Rightarrow> string \<Rightarrow> char \<Rightarrow> nat \<Rightarrow> nat \<Rightarrow> segment" where
  "extract_segment k text delim port p =
     (if text ! p = delim then Skip (p + 1)
      else
        (case host_span text delim p of
           None \<Rightarrow> Bad
         | Some span \<Rightarrow>
             (case parse_host k (host_text text span) of
                None \<Rightarrow> Bad
              | Some (x, stop) \<Rightarrow>
                  (if stop \<noteq> snd span - fst span then Bad
                   else
                     (case port_part text delim port (after_host text (snd span)) of
                        None \<Rightarrow> Bad
                      | Some (p3, xport) \<Rightarrow> Entry p3 x xport)))))"

definition merge_host :: "afs_addr_list \<Rightarrow> host \<Rightarrow> nat \<Rightarrow> afs_addr_list" where
  "merge_host alist x xport =
     (case x of
        Host4 a \<Rightarrow> afs_merge_fs_addr4 alist a (of_nat xport)
      | Host6 a \<Rightarrow> afs_merge_fs_addr6 alist a (of_nat xport))"

function extract_addrs ::
  "kernel \<Rightarrow> string \<Rightarrow> char \<Rightarrow> u16 \<Rightarrow> nat \<Rightarrow> afs_addr_list \<Rightarrow> int + afs_addr_list" where
  "extract_addrs k text delim port p alist =
     (case extract_segment k text delim (unat port) p of
        Bad \<Rightarrow> Inl (- EINVAL)
      | Skip p' \<Rightarrow>
          if p' < length text then extract_addrs k text delim port p' alist
          else Inr alist
      | Entry p' x xport \<Rightarrow>
          if p' < length text
          then extract_addrs k text delim port p' (merge_host alist x xport)
          else Inr (merge_host alist x xport))"
  by pat_completeness auto
termination
proof (relation "measure (\<lambda>(k, tx, delim, port, p, alist). length tx - p)")
  have memchr_ge: "p \<le> r" if "memchr tx p c n = Some r" for tx p c n r
    using that by (induction n arbitrary: p) (auto split: if_splits dest: Suc_leD)
  have scan_ge: "q \<le> scan_host tx delim q" for tx delim q
    by (induction tx delim q rule: scan_host.induct) (subst scan_host.simps, auto dest: Suc_leD)
  have scan_stay: "tx ! p = CHR ''+'' \<or> tx ! p = delim"
    if "scan_host tx delim p = p" "p < length tx" for tx delim p
    using that scan_ge[of "p + 1" tx delim]
    by (subst (asm) scan_host.simps) (auto split: if_splits)
  have digits_gt: "p < p'" if "port_digits tx p x = Some (p', x')" for tx p x p' x'
    using that
    by (induction tx p x rule: port_digits.induct)
       (subst (asm) (2) port_digits.simps, auto simp: Let_def split: if_splits dest: Suc_lessD)
  have part_ge: "p \<le> p'" if "port_part tx delim port p = Some (p', x)" for tx delim port p p' x
    using that digits_gt[of tx "p + 1" 0 p' x]
    by (auto simp: port_part_def split: if_splits)
  have part_plus: "p < p'"
    if "port_part tx delim port p = Some (p', x)" "p < length tx" for tx delim port p p' x
    using that digits_gt[of tx "p + 1" 0 p' x]
    by (auto simp: port_part_def split: if_splits)
  have entry: "p < p'"
    if seg: "extract_segment k tx delim port p = Entry p' x xport" and lt: "p' < length tx"
    for k tx delim port p p' x xport
  proof -
    from seg obtain p1 q where span: "host_span tx delim p = Some (p1, q)"
      and part: "port_part tx delim port (after_host tx q) = Some (p', xport)"
      and nd: "tx ! p \<noteq> delim"
      by (auto simp: extract_segment_def split: if_splits option.splits)
    have aq: "q \<le> after_host tx q" by (simp add: after_host_def)
    show ?thesis
    proof (cases "tx ! p = CHR ''[''")
      case True
      with span have "p + 1 \<le> q"
        using memchr_ge[of tx "p + 1" "CHR '']''" "length tx - (p + 1)" q]
        by (auto simp: host_span_def)
      with aq part_ge[OF part] show ?thesis by simp
    next
      case False
      with span have q: "q = scan_host tx delim p" by (auto simp: host_span_def)
      show ?thesis
      proof (cases "q = p")
        case same: True
        have "p < length tx" using part_ge[OF part] aq same lt by simp
        with scan_stay[of tx delim p] q same nd have "tx ! p = CHR ''+''" by simp
        with same have "after_host tx q = p" by (simp add: after_host_def)
        with part_plus[OF part] \<open>p < length tx\<close> show ?thesis by simp
      next
        case False
        with scan_ge[of p tx delim] q have "p < q" by simp
        with aq part_ge[OF part] show ?thesis by simp
      qed
    qed
  qed
  show "wf (measure (\<lambda>(k, tx, delim, port, p, alist). length tx - p))" by simp
  show "((k, tx, delim, port, p', alist), (k, tx, delim, port, p, alist))
          \<in> measure (\<lambda>(k, tx, delim, port, p, alist). length tx - p)"
    if "extract_segment k tx delim (unat port) p = Skip p'" "p' < length tx"
    for k :: kernel and tx delim and port :: u16 and p and alist :: afs_addr_list and p'
    using that by (auto simp: extract_segment_def split: if_splits option.splits)
  show "((k, tx, delim, port, p', merge_host alist x xport), (k, tx, delim, port, p, alist))
          \<in> measure (\<lambda>(k, tx, delim, port, p, alist). length tx - p)"
    if "extract_segment k tx delim (unat port) p = Entry p' x xport" "p' < length tx"
    for k :: kernel and tx delim and port :: u16 and p and alist :: afs_addr_list
      and p' x xport
    using entry[OF that] that(2) by simp
qed

declare extract_addrs.simps [simp del]

text \<open>
  \<open>afs_parse_text_addrs\<close>. The result is \<open>None\<close> when the call does not return;
  otherwise \<open>Inl e\<close> is \<open>ERR_PTR(e)\<close> and \<open>Inr alist\<close> the list returned. The
  delimiter both passes use is chosen first.
\<close>

definition effective_delim :: "string \<Rightarrow> char \<Rightarrow> char" where
  "effective_delim text delim =
     (if delim = CHR '':'' \<and>
         (memchr text 0 CHR '','' (length text) \<noteq> None \<or>
          memchr text 0 CHR ''.'' (length text) = None)
      then CHR '','' else delim)"

definition parse_passes ::
  "kernel \<Rightarrow> string \<Rightarrow> char \<Rightarrow> u16 \<Rightarrow> u16 \<Rightarrow> (int + afs_addr_list) option" where
  "parse_passes k text delim service port =
     (case count_addrs text delim 0 0 of
        None \<Rightarrow> None
      | Some (Inl e) \<Rightarrow> Some (Inl e)
      | Some (Inr nr) \<Rightarrow>
          (case afs_alloc_addrlist k nr service port of
             None \<Rightarrow> Some (Inl (- ENOMEM))
           | Some alist \<Rightarrow> Some (extract_addrs k text delim port 0 alist)))"

definition afs_parse_text_addrs ::
  "kernel \<Rightarrow> string \<Rightarrow> char \<Rightarrow> u16 \<Rightarrow> u16 \<Rightarrow> (int + afs_addr_list) option" where
  "afs_parse_text_addrs k text delim service port =
     (if length text = 0 then Some (Inl (- EDESTADDRREQ))
      else parse_passes k text (effective_delim text delim) service port)"

text \<open>
  The offsets at which a turn of the extraction loop starts: the start of the text,
  and the offset each turn that does not fail hands to the next one.
\<close>

inductive segment_at :: "kernel \<Rightarrow> string \<Rightarrow> char \<Rightarrow> nat \<Rightarrow> nat \<Rightarrow> bool"
  for k :: kernel and tx :: string and delim :: char and port :: nat where
  seg_first: "segment_at k tx delim port 0"
| seg_skip: "segment_at k tx delim port p \<Longrightarrow>
     extract_segment k tx delim port p = Skip p' \<Longrightarrow> p' < length tx \<Longrightarrow>
     segment_at k tx delim port p'"
| seg_entry: "segment_at k tx delim port p \<Longrightarrow>
     extract_segment k tx delim port p = Entry p' x xport \<Longrightarrow> p' < length tx \<Longrightarrow>
     segment_at k tx delim port p'"

text \<open>The digits that follow offset \<open>p\<close>, and the number a run of digits spells.\<close>

definition digit_run :: "string \<Rightarrow> nat \<Rightarrow> string" where
  "digit_run text p = takeWhile isdigit (drop p text)"

definition dec_from :: "nat \<Rightarrow> string \<Rightarrow> nat" where
  "dec_from v ds = foldl (\<lambda>v c. v * 10 + (of_char c - 48)) v ds"

definition decimal :: "string \<Rightarrow> nat" where
  "decimal ds = dec_from 0 ds"

text \<open>
  What makes the segment that starts at \<open>p\<close> malformed, in the words of the
  specification. A parser reads a source in full when it accepts it and stops at its
  end. The segment parses as neither family when its bracket is not closed, or when
  neither parser reads its host in full, or when what follows the host is neither a
  \<open>+\<close> nor the delimiter. Its port suffix is bad when a \<open>+\<close> follows the host
  (\<open>port_suffix\<close> is the offset after that \<open>+\<close>) and no digit comes next or the
  digits spell a number above 65535. None of this looks at what the extraction loop
  does with the segment.
\<close>

definition reads_whole :: "(string \<Rightarrow> ('a \<times> nat) option) \<Rightarrow> string \<Rightarrow> bool" where
  "reads_whole pton src \<longleftrightarrow>
     (case pton src of None \<Rightarrow> False | Some (x, stop) \<Rightarrow> stop = length src)"

definition neither_family :: "kernel \<Rightarrow> string \<Rightarrow> char \<Rightarrow> nat \<Rightarrow> bool" where
  "neither_family k text delim p \<longleftrightarrow>
     (case host_span text delim p of
        None \<Rightarrow> True
      | Some span \<Rightarrow>
          \<not> reads_whole (in4_pton k) (host_text text span) \<and>
          \<not> reads_whole (in6_pton k) (host_text text span))"

definition stray_after_host :: "string \<Rightarrow> char \<Rightarrow> nat \<Rightarrow> bool" where
  "stray_after_host text delim p \<longleftrightarrow>
     (case host_span text delim p of
        None \<Rightarrow> False
      | Some span \<Rightarrow>
          (let r = after_host text (snd span)
           in r < length text \<and> text ! r \<noteq> CHR ''+'' \<and> text ! r \<noteq> delim))"

definition port_suffix :: "string \<Rightarrow> char \<Rightarrow> nat \<Rightarrow> nat option" where
  "port_suffix text delim p =
     (case host_span text delim p of
        None \<Rightarrow> None
      | Some span \<Rightarrow>
          (let r = after_host text (snd span)
           in if r < length text \<and> text ! r = CHR ''+'' then Some (r + 1) else None))"

definition malformed_segment :: "kernel \<Rightarrow> string \<Rightarrow> char \<Rightarrow> nat \<Rightarrow> bool" where
  "malformed_segment k text delim p \<longleftrightarrow>
     text ! p \<noteq> delim \<and>
     (neither_family k text delim p \<or> stray_after_host text delim p \<or>
      (case port_suffix text delim p of
         None \<Rightarrow> False
       | Some d \<Rightarrow> digit_run text d = [] \<or> decimal (digit_run text d) > 65535))"

subsection \<open>The cursor\<close>

text \<open>
  Modelled from the spec: \<open>struct afs_addr_cursor\<close> (declared in \<open>internal.h\<close>, which is
  not part of this source file); the fields carry the prefix \<open>ac_\<close>. \<open>ac_alist\<close> is \<open>NULL\<close>
  or the list the cursor holds a reference to; \<open>ac_addr\<close> is \<open>NULL\<close> or the slot of
  that list's array it points at. The two indices are unsigned shorts; they are natural
  numbers here: an index below \<open>nr_addrs\<close> does not overflow when it is incremented.
\<close>

record afs_addr_cursor =
  ac_alist :: "afs_addr_list option"
  ac_addr :: "nat option"
  ac_start :: nat
  ac_index :: nat
  ac_error :: int
  ac_begun :: bool
  ac_responded :: bool

definition afs_iterate_addresses :: "afs_addr_cursor \<Rightarrow> bool \<times> afs_addr_cursor" where
  "afs_iterate_addresses ac =
     (case ac_alist ac of
        None \<Rightarrow> (False, ac)
      | Some alist \<Rightarrow>
          if ac_begun ac
          then (let i = ac_index ac + 1;
                    i = (if i = nr_addrs alist then 0 else i)
                in if i = ac_start ac
                   then (False, ac\<lparr>ac_index := i, ac_error := - EDESTADDRREQ\<rparr>)
                   else (True, ac\<lparr>ac_index := i, ac_begun := True,
                                  ac_responded := False, ac_addr := Some i\<rparr>))
          else (True, ac\<lparr>ac_begun := True, ac_responded := False,
                         ac_addr := Some (ac_index ac)\<rparr>))"

text \<open>
  \<open>afs_put_addrlist\<close> drops a reference; a list whose count reaches zero is handed to
  RCU to be freed, which shows here as a count of zero only.
\<close>

definition afs_put_addrlist :: "afs_addr_list option \<Rightarrow> afs_addr_list option" where
  "afs_put_addrlist a =
     (case a of None \<Rightarrow> None | Some alist \<Rightarrow> Some (alist\<lparr>usage := usage alist - 1\<rparr>))"

text \<open>
  \<open>afs_end_cursor\<close> returns the error code, and leaves the cursor and the list it was
  bound to (if any) as the second and third component say.
\<close>

definition afs_end_cursor ::
  "afs_addr_cursor \<Rightarrow> int \<times> afs_addr_cursor \<times> afs_addr_list option" where
  "afs_end_cursor ac =
     (let released =
            (case ac_alist ac of
               None \<Rightarrow> None
             | Some alist \<Rightarrow>
                 afs_put_addrlist
                   (Some (if ac_responded ac \<and> ac_index ac \<noteq> ac_start ac
                          then alist\<lparr>index := ac_index ac\<rparr>
                          else alist)))
      in (ac_error ac,
          ac\<lparr>ac_addr := None, ac_alist := None, ac_begun := False\<rparr>,
          released))"

text \<open>The cursor after \<open>n\<close> calls of \<open>afs_iterate_addresses\<close>.\<close>

primrec after_calls :: "nat \<Rightarrow> afs_addr_cursor \<Rightarrow> afs_addr_cursor" where
  "after_calls 0 ac = ac"
| "after_calls (Suc n) ac = snd (afs_iterate_addresses (after_calls n ac))"

subsection \<open>Values for the examples\<close>

text \<open>
  A kernel in which the allocation succeeds and at most 64 addresses are kept; its
  address parsers are given on the hosts of the examples only, and refuse every other
  source.
\<close>

definition loopback6 :: in6_addr where
  "loopback6 = ((0, 0, 0, 0), (0, 0, 0, 0), (0, 0, 0, 0), (0, 0, 0, 1))"

definition example_kernel :: kernel where
  "example_kernel =
     \<lparr>AFS_MAX_ADDRESSES = 64,
      kzalloc_ok = True,
      in4_pton = (\<lambda>src. if src = ''10.0.0.1'' then Some ((10, 0, 0, 1), 8)
                        else if src = ''10.0.0.2'' then Some ((10, 0, 0, 2), 8)
                        else None),
      in6_pton = (\<lambda>src. if src = ''::1'' then Some (loopback6, 3) else None)\<rparr>"

text \<open>A kernel that differs in one thing: the allocation fails.\<close>

definition example_kernel_nomem :: kernel where
  "example_kernel_nomem = example_kernel\<lparr>kzalloc_ok := False\<rparr>"

text \<open>
  A kernel whose \<open>in4_pton\<close> accepts a source that goes on after an address: it reads
  the first eight characters of \<open>10.0.0.1x\<close> and stops there.
\<close>

definition example_kernel_prefix :: kernel where
  "example_kernel_prefix =
     example_kernel
       \<lparr>in4_pton := (\<lambda>src. if src = ''10.0.0.1x'' then Some ((10, 0, 0, 1), 8)
                           else in4_pton example_kernel src)\<rparr>"

text \<open>
  A list of five slots holding 10.0.0.1, 10.0.0.2 and ::1, all with port 7000, and a
  cursor bound to it that starts at slot 1.
\<close>

definition example_alist :: afs_addr_list where
  "example_alist =
     \<lparr>usage = 1, nr_addrs = 3, index = 1, nr_ipv4 = 2, max_addrs = 5,
      addrs = [(slot_template 52 7000)
                 \<lparr>transport_len := sizeof_sin, sin_family := AF_INET,
                    sin_addr := (10, 0, 0, 1)\<rparr>,
               (slot_template 52 7000)
                 \<lparr>transport_len := sizeof_sin, sin_family := AF_INET,
                    sin_addr := (10, 0, 0, 2)\<rparr>,
               (slot_template 52 7000)\<lparr>sin6_addr := loopback6\<rparr>,
               slot_template 52 7000,
               slot_template 52 7000]\<rparr>"

definition example_cursor :: afs_addr_cursor where
  "example_cursor =
     \<lparr>ac_alist = Some example_alist, ac_addr = None, ac_start = 1, ac_index = 1,
      ac_error = 0, ac_begun = False, ac_responded = False\<rparr>"

section \<open>Properties\<close>

subsection \<open>Byte order and comparison\<close>

lemma ntohs_htons [simp]: "ntohs (htons p) = p"
proof -
  have lt: "unat p < 65536" using unsigned_less[of p] by simp
  have "unat (ntohs (htons p)) = unat p"
    unfolding htons_def
    using lt by (simp add: unat_word_ariths unsigned_ucast_eq unat_drop_bit_eq take_bit_eq_mod drop_bit_eq_div)
  then show ?thesis by (simp add: word_unat_eq_iff)
qed

lemma memcmp_refl [simp]: "memcmp a a = 0"
  by (induction a) auto

lemma memcmp_swap: "memcmp a b = - memcmp b a"
  by (induction a b rule: memcmp.induct) auto

lemma memcmp_eq_0: "length a = length b \<Longrightarrow> memcmp a b = 0 \<longleftrightarrow> a = b"
  by (induction a b rule: memcmp.induct) auto

lemma memcmp_trans: "memcmp a b < 0 \<Longrightarrow> memcmp b c < 0 \<Longrightarrow> memcmp a c < 0"
proof (induction a b arbitrary: c rule: memcmp.induct)
  case (1 a as b bs)
  then show ?case by (cases c) (auto split: if_splits)
qed auto

lemma length_in6_bytes [simp]: "length (in6_bytes x) = 16"
  by (cases x) auto

subsection \<open>Opening a gap in the array\<close>

text \<open>
  What \<open>memmove\<close> and the write to slot \<open>i\<close> do to the first \<open>n + 1\<close> slots of an
  array with \<open>n\<close> populated slots, and that they leave the rest alone.
\<close>

lemma length_memmove_up [simp]: "length (memmove_up xs i n) = length xs"
  by (simp add: memmove_up_def)

lemma nth_memmove_up:
  "k < length xs \<Longrightarrow>
     memmove_up xs i n ! k = (if i < k \<and> k \<le> i + n then xs ! (k - 1) else xs ! k)"
  by (simp add: memmove_up_def)

lemma opened_gap:
  assumes "i \<le> n" "n < length xs"
  shows "take (n + 1) ((if i < n then memmove_up xs i (n - i) else xs)[i := e]) =
           take i xs @ [e] @ take (n - i) (drop i xs)" (is "?l = ?r")
proof (rule nth_equalityI)
  show "length ?l = length ?r" using assms by auto
next
  fix k assume "k < length ?l"
  then have k: "k \<le> n" using assms by auto
  show "?l ! k = ?r ! k"
    using k assms by (auto simp: nth_append nth_list_update nth_memmove_up)
qed

lemma opened_gap_rest:
  assumes "i \<le> n" "n < length xs"
  shows "drop (n + 1) ((if i < n then memmove_up xs i (n - i) else xs)[i := e]) =
           drop (n + 1) xs" (is "?l = ?r")
proof (rule nth_equalityI)
  show "length ?l = length ?r" using assms by auto
next
  fix k assume "k < length ?l"
  then show "?l ! k = ?r ! k"
    using assms by (auto simp: nth_list_update nth_memmove_up)
qed

subsection \<open>The orders of the keys\<close>

lemma key_less4_trans: "key_less4 x y \<Longrightarrow> key_less4 y z \<Longrightarrow> key_less4 x z"
  by (cases x; cases y; cases z) auto

lemma key_less4_irrefl: "\<not> key_less4 x x"
  by (cases x) auto

lemma be32_bytes_inj: "be32_bytes a = be32_bytes b \<longleftrightarrow> a = b"
  by (cases a rule: be32_bytes.cases; cases b rule: be32_bytes.cases) simp

lemma length_be32_bytes [simp]: "length (be32_bytes a) = 4"
  by (cases a rule: be32_bytes.cases) simp

lemma in6_bytes_inj: "in6_bytes a = in6_bytes b \<Longrightarrow> a = b"
  apply (cases a rule: in6_bytes.cases; cases b rule: in6_bytes.cases)
  apply (simp add: be32_bytes_inj)
  done

lemma memcmp_in6_0: "memcmp (in6_bytes a) (in6_bytes b) = 0 \<longleftrightarrow> a = b"
  by (auto simp: memcmp_eq_0 dest: in6_bytes_inj)

lemma key_less6_trans: "key_less6 x y \<Longrightarrow> key_less6 y z \<Longrightarrow> key_less6 x z"
  by (cases x; cases y; cases z) (auto simp: memcmp_in6_0 dest: memcmp_trans)

lemma key_less6_irrefl: "\<not> key_less6 x x"
  by (cases x) auto

subsection \<open>What the scans establish\<close>

text \<open>
  A scan that stops at slot \<open>j\<close> has passed only entries below the new one, and stops
  at the end of its segment or at an entry above the new one. Conversely, a scan that
  passes entries below the new one and then meets the new one reports a duplicate.
\<close>

lemma scan4_props:
  "scan4 al a p i = Some j \<Longrightarrow> i \<le> nr_ipv4 al \<Longrightarrow>
     i \<le> j \<and> j \<le> nr_ipv4 al \<and>
     (\<forall>k. i \<le> k \<and> k < j \<longrightarrow> key_less4 (key4 (addrs al ! k)) (a, p)) \<and>
     (j < nr_ipv4 al \<longrightarrow> key_less4 (a, p) (key4 (addrs al ! j)))"
proof (induction al a p i rule: scan4.induct)
  case (1 alist addr port i)
  let ?aa = "ntohl (sin_addr (addrs alist ! i))"
  let ?ap = "ntohs (sin_port (addrs alist ! i))"
  show ?case
  proof (cases "i < nr_ipv4 alist")
    case False
    with "1.prems" show ?thesis by (auto simp: scan4.simps)
  next
    case inside: True
    from "1.prems"(1) inside have notdup: "\<not> (addr = ?aa \<and> port = ?ap)"
      by (subst (asm) scan4.simps) (auto simp: Let_def split: if_splits)
    show ?thesis
    proof (cases "(addr = ?aa \<and> port < ?ap) \<or> addr < ?aa")
      case True
      with "1.prems"(1) inside notdup have "j = i"
        by (subst (asm) scan4.simps) (auto simp: Let_def split: if_splits)
      with True inside show ?thesis by (auto simp: key4_def)
    next
      case False
      with "1.prems"(1) inside notdup have rec: "scan4 alist addr port (i + 1) = Some j"
        by (subst (asm) scan4.simps) (auto simp: Let_def split: if_splits)
      from False notdup have here: "key_less4 (key4 (addrs alist ! i)) (addr, port)"
        by (auto simp: key4_def)
      have IH: "i + 1 \<le> j \<and> j \<le> nr_ipv4 alist \<and>
         (\<forall>k. i + 1 \<le> k \<and> k < j \<longrightarrow> key_less4 (key4 (addrs alist ! k)) (addr, port)) \<and>
         (j < nr_ipv4 alist \<longrightarrow> key_less4 (addr, port) (key4 (addrs alist ! j)))"
        using "1.IH"[OF inside refl refl refl _ _ _ rec] notdup False inside by auto
      have "key_less4 (key4 (addrs alist ! k)) (addr, port)" if "i \<le> k" "k < j" for k
      proof (cases "k = i")
        case True with here show ?thesis by simp
      next
        case False with that IH show ?thesis by auto
      qed
      with IH show ?thesis by auto
    qed
  qed
qed

lemma scan4_finds:
  "i \<le> j \<Longrightarrow> j < nr_ipv4 al \<Longrightarrow> key4 (addrs al ! j) = (a, p) \<Longrightarrow>
     (\<forall>k. i \<le> k \<and> k < j \<longrightarrow> key_less4 (key4 (addrs al ! k)) (a, p)) \<Longrightarrow>
     scan4 al a p i = None"
proof (induction "j - i" arbitrary: i)
  case 0
  then have "i = j" by simp
  with 0 show ?case by (subst scan4.simps) (auto simp: key4_def Let_def)
next
  case (Suc d)
  then have lt: "i < j" and here: "key_less4 (key4 (addrs al ! i)) (a, p)" by auto
  have "scan4 al a p (i + 1) = None"
    using Suc.hyps(1)[of "i + 1"] Suc.hyps(2) Suc.prems by auto
  with lt here Suc.prems(2) show ?case
    by (subst scan4.simps) (auto simp: key4_def Let_def)
qed

lemma scan6_props:
  "scan6 al x p i = Some j \<Longrightarrow> i \<le> nr_addrs al \<Longrightarrow>
     i \<le> j \<and> j \<le> nr_addrs al \<and>
     (\<forall>k. i \<le> k \<and> k < j \<longrightarrow> key_less6 (key6 (addrs al ! k)) (x, p)) \<and>
     (j < nr_addrs al \<longrightarrow> key_less6 (x, p) (key6 (addrs al ! j)))"
proof (induction al x p i rule: scan6.induct)
  case (1 alist xdr port i)
  let ?d = "memcmp (in6_bytes xdr) (in6_bytes (sin6_addr (addrs alist ! i)))"
  let ?ap = "ntohs (sin_port (addrs alist ! i))"
  show ?case
  proof (cases "i < nr_addrs alist")
    case False
    with "1.prems" show ?thesis by (auto simp: scan6.simps)
  next
    case inside: True
    from "1.prems"(1) inside have notdup: "\<not> (?d = 0 \<and> port = ?ap)"
      by (subst (asm) scan6.simps) (auto simp: Let_def split: if_splits)
    show ?thesis
    proof (cases "(?d = 0 \<and> port < ?ap) \<or> ?d < 0")
      case True
      with "1.prems"(1) inside notdup have "j = i"
        by (subst (asm) scan6.simps) (auto simp: Let_def split: if_splits)
      with True inside show ?thesis by (auto simp: key6_def)
    next
      case False
      with "1.prems"(1) inside notdup have rec: "scan6 alist xdr port (i + 1) = Some j"
        by (subst (asm) scan6.simps) (auto simp: Let_def split: if_splits)
      from False notdup have here: "key_less6 (key6 (addrs alist ! i)) (xdr, port)"
        using memcmp_swap[of "in6_bytes xdr" "in6_bytes (sin6_addr (addrs alist ! i))"]
        by (auto simp: key6_def)
      have IH: "i + 1 \<le> j \<and> j \<le> nr_addrs alist \<and>
         (\<forall>k. i + 1 \<le> k \<and> k < j \<longrightarrow> key_less6 (key6 (addrs alist ! k)) (xdr, port)) \<and>
         (j < nr_addrs alist \<longrightarrow> key_less6 (xdr, port) (key6 (addrs alist ! j)))"
        using "1.IH"[OF inside refl refl refl _ _ _ rec] notdup False inside by auto
      have "key_less6 (key6 (addrs alist ! k)) (xdr, port)" if "i \<le> k" "k < j" for k
      proof (cases "k = i")
        case True with here show ?thesis by simp
      next
        case False with that IH show ?thesis by auto
      qed
      with IH show ?thesis by auto
    qed
  qed
qed

lemma key_less6_asym: "key_less6 x y \<Longrightarrow> \<not> key_less6 y x"
  using key_less6_trans key_less6_irrefl by blast

lemma scan6_finds:
  "i \<le> j \<Longrightarrow> j < nr_addrs al \<Longrightarrow> key6 (addrs al ! j) = (x, p) \<Longrightarrow>
     (\<forall>k. i \<le> k \<and> k < j \<longrightarrow> key_less6 (key6 (addrs al ! k)) (x, p)) \<Longrightarrow>
     scan6 al x p i = None"
proof (induction "j - i" arbitrary: i)
  case 0
  then have "i = j" by simp
  with 0 show ?case by (subst scan6.simps) (auto simp: key6_def Let_def)
next
  case (Suc d)
  then have lt: "i < j" and here: "key_less6 (key6 (addrs al ! i)) (x, p)" by auto
  have "scan6 al x p (i + 1) = None"
    using Suc.hyps(1)[of "i + 1"] Suc.hyps(2) Suc.prems by auto
  moreover from here have "\<not> key_less6 (x, p) (key6 (addrs al ! i))"
    by (rule key_less6_asym)
  moreover from here have "key6 (addrs al ! i) \<noteq> (x, p)"
    using key_less6_irrefl by metis
  ultimately show ?case using lt Suc.prems(2)
    by (subst scan6.simps) (auto simp: key6_def Let_def memcmp_in6_0)
qed

subsection \<open>The segments after an insertion\<close>

lemma gap_take:
  assumes "i \<le> a" "a \<le> n" "n < length xs"
  shows "take (a + 1) ((if i < n then memmove_up xs i (n - i) else xs)[i := e]) =
           take i xs @ [e] @ take (a - i) (drop i xs)"
proof -
  let ?ys = "(if i < n then memmove_up xs i (n - i) else xs)[i := e]"
  have "take (a + 1) ?ys = take (a + 1) (take (n + 1) ?ys)"
    using assms by (simp add: min_def)
  also have "\<dots> = take (a + 1) (take i xs @ [e] @ take (n - i) (drop i xs))"
    using assms by (simp only: opened_gap)
  also have "\<dots> = take i xs @ [e] @ take (a - i) (drop i xs)"
    using assms by (simp add: min_def Suc_diff_le)
  finally show ?thesis .
qed

lemma gap_drop:
  assumes "i \<le> a" "a \<le> n" "n < length xs"
  shows "take (n - a) (drop (a + 1) ((if i < n then memmove_up xs i (n - i) else xs)[i := e])) =
           take (n - a) (drop a xs)"
proof -
  let ?ys = "(if i < n then memmove_up xs i (n - i) else xs)[i := e]"
  have "take (n - a) (drop (a + 1) ?ys) = drop (a + 1) (take (n + 1) ?ys)"
    using assms by (simp add: drop_take)
  also have "\<dots> = drop (a + 1) (take i xs @ [e] @ take (n - i) (drop i xs))"
    using assms by (simp only: opened_gap)
  also have "\<dots> = take (n - a) (drop a xs)"
    using assms by (simp add: drop_take Suc_diff_le)
  finally show ?thesis .
qed

lemma gap_prefix:
  assumes "a \<le> i" "i \<le> n" "n < length xs"
  shows "take a ((if i < n then memmove_up xs i (n - i) else xs)[i := e]) = take a xs"
proof -
  let ?ys = "(if i < n then memmove_up xs i (n - i) else xs)[i := e]"
  have "take a ?ys = take a (take (n + 1) ?ys)"
    using assms by (simp add: min_def)
  also have "\<dots> = take a (take i xs @ [e] @ take (n - i) (drop i xs))"
    using assms by (simp only: opened_gap)
  also have "\<dots> = take a xs"
    using assms by (simp add: min_def)
  finally show ?thesis .
qed

lemma gap_middle:
  assumes "a \<le> i" "i \<le> n" "n < length xs"
  shows "take (n + 1 - a) (drop a ((if i < n then memmove_up xs i (n - i) else xs)[i := e])) =
           take (i - a) (drop a xs) @ [e] @ take (n - i) (drop i xs)"
proof -
  let ?ys = "(if i < n then memmove_up xs i (n - i) else xs)[i := e]"
  have "take (n + 1 - a) (drop a ?ys) = drop a (take (n + 1) ?ys)"
    using assms by (simp add: drop_take)
  also have "\<dots> = drop a (take i xs @ [e] @ take (n - i) (drop i xs))"
    using assms by (simp only: opened_gap)
  also have "\<dots> = take (i - a) (drop a xs) @ [e] @ take (n - i) (drop i xs)"
    using assms by (simp add: drop_take)
  finally show ?thesis .
qed

lemma split_segment:
  "a \<le> i \<Longrightarrow> i \<le> b \<Longrightarrow>
     take (b - a) (drop a xs) = take (i - a) (drop a xs) @ take (b - i) (drop i xs)"
proof -
  assume "a \<le> i" "i \<le> b"
  then have "b - a = (i - a) + (b - i)" by simp
  then have "take (b - a) (drop a xs) = take (i - a) (drop a xs) @ take (b - i) (drop (i - a) (drop a xs))"
    by (simp only: take_add)
  with \<open>a \<le> i\<close> show ?thesis by simp
qed

lemma strict_sorted_distinct:
  "sorted_wrt R ks \<Longrightarrow> (\<And>x. \<not> R x x) \<Longrightarrow> distinct ks"
  by (induction ks) auto

lemma set_take_nth: "x \<in> set (take i xs) \<Longrightarrow> i \<le> length xs \<Longrightarrow> \<exists>k<i. x = xs ! k"
  by (auto simp: in_set_conv_nth)

lemma set_seg_nth:
  "x \<in> set (take c (drop i xs)) \<Longrightarrow> i + c \<le> length xs \<Longrightarrow> \<exists>k. i \<le> k \<and> k < i + c \<and> x = xs ! k"
proof -
  assume "x \<in> set (take c (drop i xs))" "i + c \<le> length xs"
  then obtain k where "k < c" "x = xs ! (i + k)"
    by (auto simp: in_set_conv_nth)
  then show ?thesis by (intro exI[of _ "i + k"]) auto
qed

lemma sorted_wrt_insert:
  assumes "sorted_wrt R (A @ B)" "\<forall>a\<in>set A. R a e" "\<forall>b\<in>set B. R e b"
  shows "sorted_wrt R (A @ [e] @ B)"
  using assms by (auto simp: sorted_wrt_append)

lemma sorted_wrt_head_bound:
  assumes "sorted_wrt R B" "B \<noteq> [] \<Longrightarrow> R e (hd B)" "\<And>x y z. R x y \<Longrightarrow> R y z \<Longrightarrow> R x z"
  shows "\<forall>b\<in>set B. R e b"
  using assms by (cases B) auto

subsection \<open>The invariant across a merge\<close>

lemma merge4_scan_inv:
  assumes inv: "alist_inv al" and room: "nr_addrs al < max_addrs al"
    and scan: "scan4 al (ntohl xdr) port 0 = Some i"
    and ys: "ys = (if i < nr_addrs al
                   then memmove_up (addrs al) i (nr_addrs al - i)
                   else addrs al)[i := srx]"
    and srx: "srx = e\<lparr>transport_len := sizeof_sin, sin_family := AF_INET,
                       sin_port := htons port, sin_addr := xdr\<rparr>"
  shows "alist_inv (al\<lparr>addrs := ys, nr_ipv4 := nr_ipv4 al + 1,
                       nr_addrs := nr_addrs al + 1\<rparr>)" (is "alist_inv ?al'")
proof -
  let ?xs = "addrs al" and ?n4 = "nr_ipv4 al" and ?n = "nr_addrs al"
  let ?A = "take i ?xs" and ?B = "take (?n4 - i) (drop i ?xs)"
  from inv have slots: "?n4 \<le> ?n" "?n \<le> max_addrs al" "length ?xs = max_addrs al"
    by (auto simp: alist_inv_def alist_slots_def)
  from scan4_props[OF scan] have i: "i \<le> ?n4"
    and before: "\<forall>k<i. key_less4 (key4 (?xs ! k)) (ntohl xdr, port)"
    and after: "i < ?n4 \<longrightarrow> key_less4 (ntohl xdr, port) (key4 (?xs ! i))"
    by auto
  have len: "?n < length ?xs" using slots room by simp
  have old4: "ipv4_entries al = ?A @ ?B"
    using split_segment[of 0 i ?n4 ?xs] i by (simp add: ipv4_entries_def)
  have "take (?n4 + 1) ys = ?A @ [srx] @ ?B"
    unfolding ys by (rule gap_take[OF i slots(1) len])
  then have new4: "ipv4_entries ?al' = ?A @ [srx] @ ?B"
    by (simp add: ipv4_entries_def)
  have "take (?n - ?n4) (drop (?n4 + 1) ys) = take (?n - ?n4) (drop ?n4 ?xs)"
    unfolding ys by (rule gap_drop[OF i slots(1) len])
  then have new6: "ipv6_entries ?al' = ipv6_entries al"
    by (simp add: ipv6_entries_def)
  have key: "key4 srx = (ntohl xdr, port)" by (simp add: key4_def srx)
  have sorted_old: "sorted_wrt key_less4 (map key4 ?A @ map key4 ?B)"
    using inv old4 by (simp add: alist_inv_def)
  have A: "\<forall>a\<in>set (map key4 ?A). key_less4 a (ntohl xdr, port)"
    using before i slots len by (auto dest!: set_take_nth)
  have B: "\<forall>b\<in>set (map key4 ?B). key_less4 (ntohl xdr, port) b"
  proof (rule sorted_wrt_head_bound)
    show "sorted_wrt key_less4 (map key4 ?B)"
      using sorted_old by (simp add: sorted_wrt_append)
    show "key_less4 (ntohl xdr, port) (hd (map key4 ?B))" if "map key4 ?B \<noteq> []"
    proof -
      from that have "i < ?n4" by auto
      moreover then have "hd (map key4 ?B) = key4 (?xs ! i)"
        using len slots by (simp add: hd_map hd_conv_nth)
      ultimately show ?thesis using after by simp
    qed
  qed (rule key_less4_trans)
  have sorted_new: "sorted_wrt key_less4 (map key4 (ipv4_entries ?al'))"
    unfolding new4 using sorted_wrt_insert[OF sorted_old A B] key by simp
  have "alist_slots ?al'"
    using slots room i len by (simp add: alist_slots_def ys)
  moreover have "list_all is_ipv4 (ipv4_entries ?al')"
    unfolding new4 using inv old4 by (simp add: alist_inv_def is_ipv4_def srx)
  moreover note sorted_new
  moreover have "distinct (map key4 (ipv4_entries ?al'))"
    using sorted_new by (rule strict_sorted_distinct) (rule key_less4_irrefl)
  ultimately show ?thesis
    unfolding alist_inv_def new6 using inv by (simp add: alist_inv_def)
qed

lemma merge4_inv:
  assumes inv: "alist_inv al"
  shows "alist_inv (afs_merge_fs_addr4 al xdr port)"
proof (cases "nr_addrs al \<ge> max_addrs al")
  case True
  with inv show ?thesis by (simp add: afs_merge_fs_addr4_def)
next
  case False
  then have room: "nr_addrs al < max_addrs al" by simp
  show ?thesis
  proof (cases "scan4 al (ntohl xdr) port 0")
    case None
    with inv show ?thesis by (simp add: afs_merge_fs_addr4_def)
  next
    case (Some i)
    show ?thesis
      using merge4_scan_inv[OF inv room Some refl refl] False Some
      by (simp add: afs_merge_fs_addr4_def Let_def)
  qed
qed

lemma merge6_scan_inv:
  assumes inv: "alist_inv al" and room: "nr_addrs al < max_addrs al"
    and scan: "scan6 al xdr port (nr_ipv4 al) = Some i"
    and ys: "ys = (if i < nr_addrs al
                   then memmove_up (addrs al) i (nr_addrs al - i)
                   else addrs al)[i := srx]"
    and srx: "srx = e\<lparr>transport_len := sizeof_sin6, sin_family := AF_INET6,
                       sin_port := htons port, sin6_addr := xdr\<rparr>"
  shows "alist_inv (al\<lparr>addrs := ys, nr_addrs := nr_addrs al + 1\<rparr>)"
    (is "alist_inv ?al'")
proof -
  let ?xs = "addrs al" and ?n4 = "nr_ipv4 al" and ?n = "nr_addrs al"
  let ?A = "take (i - ?n4) (drop ?n4 ?xs)" and ?B = "take (?n - i) (drop i ?xs)"
  from inv have slots: "?n4 \<le> ?n" "?n \<le> max_addrs al" "length ?xs = max_addrs al"
    by (auto simp: alist_inv_def alist_slots_def)
  from scan6_props[OF scan slots(1)] have i: "?n4 \<le> i" "i \<le> ?n"
    and before: "\<forall>k. ?n4 \<le> k \<and> k < i \<longrightarrow> key_less6 (key6 (?xs ! k)) (xdr, port)"
    and after: "i < ?n \<longrightarrow> key_less6 (xdr, port) (key6 (?xs ! i))"
    by auto
  have len: "?n < length ?xs" using slots room by simp
  have old6: "ipv6_entries al = ?A @ ?B"
    using split_segment[OF i] by (simp add: ipv6_entries_def)
  have "take (?n + 1 - ?n4) (drop ?n4 ys) = ?A @ [srx] @ ?B"
    unfolding ys by (rule gap_middle[OF i len])
  then have new6: "ipv6_entries ?al' = ?A @ [srx] @ ?B"
    by (simp add: ipv6_entries_def)
  have "take ?n4 ys = take ?n4 ?xs"
    unfolding ys by (rule gap_prefix[OF i len])
  then have new4: "ipv4_entries ?al' = ipv4_entries al"
    by (simp add: ipv4_entries_def)
  have key: "key6 srx = (xdr, port)" by (simp add: key6_def srx)
  have sorted_old: "sorted_wrt key_less6 (map key6 ?A @ map key6 ?B)"
    using inv old6 by (simp add: alist_inv_def)
  have A: "\<forall>a\<in>set (map key6 ?A). key_less6 a (xdr, port)"
  proof
    fix a assume "a \<in> set (map key6 ?A)"
    then obtain x where x: "x \<in> set ?A" "a = key6 x" by auto
    from set_seg_nth[OF x(1)] i len obtain k where "?n4 \<le> k" "k < i" "x = ?xs ! k"
      by auto
    with before x show "key_less6 a (xdr, port)" by simp
  qed
  have B: "\<forall>b\<in>set (map key6 ?B). key_less6 (xdr, port) b"
  proof (rule sorted_wrt_head_bound)
    show "sorted_wrt key_less6 (map key6 ?B)"
      using sorted_old by (simp add: sorted_wrt_append)
    show "key_less6 (xdr, port) (hd (map key6 ?B))" if "map key6 ?B \<noteq> []"
    proof -
      from that have "i < ?n" by auto
      moreover then have "hd (map key6 ?B) = key6 (?xs ! i)"
        using len slots by (simp add: hd_map hd_conv_nth)
      ultimately show ?thesis using after by simp
    qed
  qed (rule key_less6_trans)
  have sorted_new: "sorted_wrt key_less6 (map key6 (ipv6_entries ?al'))"
    unfolding new6 using sorted_wrt_insert[OF sorted_old A B] key by simp
  have "alist_slots ?al'"
    using slots room i len by (simp add: alist_slots_def ys)
  moreover have "list_all is_ipv6 (ipv6_entries ?al')"
    unfolding new6 using inv old6 by (simp add: alist_inv_def is_ipv6_def srx)
  moreover note sorted_new
  moreover have "distinct (map key6 (ipv6_entries ?al'))"
    using sorted_new by (rule strict_sorted_distinct) (rule key_less6_irrefl)
  ultimately show ?thesis
    unfolding alist_inv_def new4 using inv by (simp add: alist_inv_def)
qed

lemma merge6_inv:
  assumes inv: "alist_inv al"
  shows "alist_inv (afs_merge_fs_addr6 al xdr port)"
proof (cases "nr_addrs al \<ge> max_addrs al")
  case True
  with inv show ?thesis by (simp add: afs_merge_fs_addr6_def)
next
  case False
  then have room: "nr_addrs al < max_addrs al" by simp
  show ?thesis
  proof (cases "scan6 al xdr port (nr_ipv4 al)")
    case None
    with inv show ?thesis by (simp add: afs_merge_fs_addr6_def)
  next
    case (Some i)
    show ?thesis
      using merge6_scan_inv[OF inv room Some refl refl] False Some
      by (simp add: afs_merge_fs_addr6_def Let_def)
  qed
qed

subsection \<open>A second merge of the same entry\<close>

lemma gap_nth_before:
  assumes "k < i" "i \<le> n" "n < length xs"
  shows "(if i < n then memmove_up xs i (n - i) else xs)[i := e] ! k = xs ! k"
  using assms by (simp add: nth_memmove_up)

lemma gap_nth_at:
  assumes "i \<le> n" "n < length xs"
  shows "(if i < n then memmove_up xs i (n - i) else xs)[i := e] ! i = e"
  using assms by simp

lemma merge4_idem:
  assumes slots: "alist_slots al"
  shows "afs_merge_fs_addr4 (afs_merge_fs_addr4 al xdr port) xdr port =
         afs_merge_fs_addr4 al xdr port"
proof (cases "nr_addrs al \<ge> max_addrs al")
  case True
  then show ?thesis by (simp add: afs_merge_fs_addr4_def)
next
  case False
  then have room: "nr_addrs al < max_addrs al" by simp
  show ?thesis
  proof (cases "scan4 al (ntohl xdr) port 0")
    case None
    then show ?thesis by (simp add: afs_merge_fs_addr4_def)
  next
    case (Some i)
    let ?xs = "addrs al" and ?n = "nr_addrs al"
    define srx where "srx = ((if i < ?n then memmove_up ?xs i (?n - i) else ?xs) ! i)
        \<lparr>transport_len := sizeof_sin, sin_family := AF_INET,
         sin_port := htons port, sin_addr := xdr\<rparr>"
    define ys where "ys = (if i < ?n then memmove_up ?xs i (?n - i) else ?xs)[i := srx]"
    define al' where "al' = al\<lparr>addrs := ys, nr_ipv4 := nr_ipv4 al + 1,
                                nr_addrs := nr_addrs al + 1\<rparr>"
    have first: "afs_merge_fs_addr4 al xdr port = al'"
      using False Some by (simp add: afs_merge_fs_addr4_def Let_def al'_def ys_def srx_def)
    from slots have s: "nr_ipv4 al \<le> ?n" "length ?xs = max_addrs al"
      by (auto simp: alist_slots_def)
    from scan4_props[OF Some] have i: "i \<le> nr_ipv4 al"
      and before: "\<forall>k<i. key_less4 (key4 (?xs ! k)) (ntohl xdr, port)"
      by auto
    have len: "?n < length ?xs" and i_n: "i \<le> ?n" using s room i by auto
    have at: "ys ! i = srx"
      unfolding ys_def by (rule gap_nth_at[OF i_n len])
    have same: "ys ! k = ?xs ! k" if "k < i" for k
      unfolding ys_def by (rule gap_nth_before[OF that i_n len])
    have "scan4 al' (ntohl xdr) port 0 = None"
    proof (rule scan4_finds[where j = i])
      show "i < nr_ipv4 al'" using i by (simp add: al'_def)
      show "key4 (addrs al' ! i) = (ntohl xdr, port)"
        using at by (simp add: al'_def key4_def srx_def)
      show "\<forall>k. 0 \<le> k \<and> k < i \<longrightarrow> key_less4 (key4 (addrs al' ! k)) (ntohl xdr, port)"
        using before same by (simp add: al'_def)
    qed simp
    then have "afs_merge_fs_addr4 al' xdr port = al'"
      by (simp add: afs_merge_fs_addr4_def)
    with first show ?thesis by simp
  qed
qed

lemma merge6_idem:
  assumes slots: "alist_slots al"
  shows "afs_merge_fs_addr6 (afs_merge_fs_addr6 al xdr port) xdr port =
         afs_merge_fs_addr6 al xdr port"
proof (cases "nr_addrs al \<ge> max_addrs al")
  case True
  then show ?thesis by (simp add: afs_merge_fs_addr6_def)
next
  case False
  then have room: "nr_addrs al < max_addrs al" by simp
  show ?thesis
  proof (cases "scan6 al xdr port (nr_ipv4 al)")
    case None
    then show ?thesis by (simp add: afs_merge_fs_addr6_def)
  next
    case (Some i)
    let ?xs = "addrs al" and ?n = "nr_addrs al"
    define srx where "srx = ((if i < ?n then memmove_up ?xs i (?n - i) else ?xs) ! i)
        \<lparr>transport_len := sizeof_sin6, sin_family := AF_INET6,
         sin_port := htons port, sin6_addr := xdr\<rparr>"
    define ys where "ys = (if i < ?n then memmove_up ?xs i (?n - i) else ?xs)[i := srx]"
    define al' where "al' = al\<lparr>addrs := ys, nr_addrs := nr_addrs al + 1\<rparr>"
    have first: "afs_merge_fs_addr6 al xdr port = al'"
      using False Some by (simp add: afs_merge_fs_addr6_def Let_def al'_def ys_def srx_def)
    from slots have s: "nr_ipv4 al \<le> ?n" "length ?xs = max_addrs al"
      by (auto simp: alist_slots_def)
    from scan6_props[OF Some s(1)] have i: "nr_ipv4 al \<le> i" "i \<le> ?n"
      and before: "\<forall>k. nr_ipv4 al \<le> k \<and> k < i \<longrightarrow> key_less6 (key6 (?xs ! k)) (xdr, port)"
      by auto
    have len: "?n < length ?xs" using s room by auto
    have at: "ys ! i = srx"
      unfolding ys_def by (rule gap_nth_at[OF i(2) len])
    have same: "ys ! k = ?xs ! k" if "k < i" for k
      unfolding ys_def by (rule gap_nth_before[OF that i(2) len])
    have "scan6 al' xdr port (nr_ipv4 al') = None"
    proof (rule scan6_finds[where j = i])
      show "nr_ipv4 al' \<le> i" using i by (simp add: al'_def)
      show "i < nr_addrs al'" using i by (simp add: al'_def)
      show "key6 (addrs al' ! i) = (xdr, port)"
        using at by (simp add: al'_def key6_def srx_def)
      show "\<forall>k. nr_ipv4 al' \<le> k \<and> k < i \<longrightarrow> key_less6 (key6 (addrs al' ! k)) (xdr, port)"
        using before same by (simp add: al'_def)
    qed
    then have "afs_merge_fs_addr6 al' xdr port = al'"
      by (simp add: afs_merge_fs_addr6_def)
    with first show ?thesis by simp
  qed
qed

subsection \<open>A merge as an insertion into a list\<close>

lemma gap_whole:
  assumes "i \<le> n" "n < length xs"
  shows "(if i < n then memmove_up xs i (n - i) else xs)[i := e] =
           take i xs @ [e] @ take (n - i) (drop i xs) @ drop (n + 1) xs"
proof -
  let ?ys = "(if i < n then memmove_up xs i (n - i) else xs)[i := e]"
  have "?ys = take (n + 1) ?ys @ drop (n + 1) ?ys" by simp
  also have "\<dots> = (take i xs @ [e] @ take (n - i) (drop i xs)) @ drop (n + 1) xs"
    by (simp only: opened_gap[OF assms] opened_gap_rest[OF assms])
  finally show ?thesis by simp
qed

lemma gap_old_slot:
  assumes "i \<le> n" "n < length xs"
  shows "(if i < n then memmove_up xs i (n - i) else xs) ! i = xs ! i"
  using assms by (simp add: nth_memmove_up)

lemma merge4_as_insert:
  assumes slots: "alist_slots al"
  shows "afs_merge_fs_addr4 al xdr port =
     (if nr_addrs al \<ge> max_addrs al then al
      else case scan4 al (ntohl xdr) port 0 of
        None \<Rightarrow> al
      | Some i \<Rightarrow>
          al\<lparr>addrs := take i (addrs al) @
                       [(addrs al ! i)\<lparr>transport_len := sizeof_sin, sin_family := AF_INET,
                                        sin_port := htons port, sin_addr := xdr\<rparr>] @
                       take (nr_addrs al - i) (drop i (addrs al)) @
                       drop (nr_addrs al + 1) (addrs al),
             nr_ipv4 := nr_ipv4 al + 1,
             nr_addrs := nr_addrs al + 1\<rparr>)"
proof (cases "nr_addrs al \<ge> max_addrs al")
  case True
  then show ?thesis by (simp add: afs_merge_fs_addr4_def)
next
  case False
  show ?thesis
  proof (cases "scan4 al (ntohl xdr) port 0")
    case None
    then show ?thesis by (simp add: afs_merge_fs_addr4_def)
  next
    case (Some i)
    from slots False have n: "nr_addrs al < length (addrs al)" and n4: "nr_ipv4 al \<le> nr_addrs al"
      by (auto simp: alist_slots_def)
    from scan4_props[OF Some] n4 have i: "i \<le> nr_addrs al" by simp
    show ?thesis
      using False Some
      by (simp only: afs_merge_fs_addr4_def Let_def gap_whole[OF i n] gap_old_slot[OF i n]
            if_False option.case)
  qed
qed

lemma merge6_as_insert:
  assumes slots: "alist_slots al"
  shows "afs_merge_fs_addr6 al xdr port =
     (if nr_addrs al \<ge> max_addrs al then al
      else case scan6 al xdr port (nr_ipv4 al) of
        None \<Rightarrow> al
      | Some i \<Rightarrow>
          al\<lparr>addrs := take i (addrs al) @
                       [(addrs al ! i)\<lparr>transport_len := sizeof_sin6, sin_family := AF_INET6,
                                        sin_port := htons port, sin6_addr := xdr\<rparr>] @
                       take (nr_addrs al - i) (drop i (addrs al)) @
                       drop (nr_addrs al + 1) (addrs al),
             nr_addrs := nr_addrs al + 1\<rparr>)"
proof (cases "nr_addrs al \<ge> max_addrs al")
  case True
  then show ?thesis by (simp add: afs_merge_fs_addr6_def)
next
  case False
  show ?thesis
  proof (cases "scan6 al xdr port (nr_ipv4 al)")
    case None
    then show ?thesis by (simp add: afs_merge_fs_addr6_def)
  next
    case (Some i)
    from slots False have n: "nr_addrs al < length (addrs al)" and n4: "nr_ipv4 al \<le> nr_addrs al"
      by (auto simp: alist_slots_def)
    from scan6_props[OF Some n4] have i: "i \<le> nr_addrs al" by simp
    show ?thesis
      using False Some
      by (simp only: afs_merge_fs_addr6_def Let_def gap_whole[OF i n] gap_old_slot[OF i n]
            if_False option.case)
  qed
qed

subsection \<open>The ring a cursor walks\<close>

lemma ring_step_ne:
  assumes "s < N" "0 < j" "j < N"
  shows "(s + j) mod N \<noteq> (s::nat)"
proof
  assume eq: "(s + j) mod N = s"
  show False
  proof (cases "s + j < N")
    case True
    with eq assms show False by simp
  next
    case False
    then have "(s + j) mod N = s + j - N"
      using assms by (simp add: le_mod_geq)
    with eq assms False show False by simp
  qed
qed

lemma ring_succ:
  assumes "0 < N"
  shows "(if i mod N + 1 = N then 0 else i mod N + 1) = (i + 1) mod (N::nat)"
  using assms by (simp add: mod_Suc)

lemma ring_inj: "inj_on (\<lambda>k. (s + k) mod N) {0..<N::nat}"
proof (rule inj_onI)
  fix a b assume a: "a \<in> {0..<N}" and b: "b \<in> {0..<N}"
    and eq: "(s + a) mod N = (s + b) mod N"
  have "a = b" if "a \<le> b" "a < N" "b < N" "(s + a) mod N = (s + b) mod N" for a b
  proof -
    from that have "N dvd (s + b) - (s + a)"
      by (metis mod_eq_dvd_iff_nat add_le_cancel_left)
    then have "N dvd b - a" by simp
    moreover have "b - a < N" using that by simp
    ultimately have "b - a = 0" by (meson dvd_imp_le not_less zero_less_iff_neq_zero)
    with that show ?thesis by simp
  qed
  from this[of a b] this[of b a] a b eq show "a = b"
    by (cases "a \<le> b") auto
qed

lemma ring_image: "(\<lambda>k. (s + k) mod N) ` {0..<N} = {0..<N::nat}"
proof (cases "N = 0")
  case True then show ?thesis by simp
next
  case False
  show ?thesis
  proof (rule card_subset_eq)
    show "finite {0..<N}" by simp
    show "(\<lambda>k. (s + k) mod N) ` {0..<N} \<subseteq> {0..<N}" using False by auto
    show "card ((\<lambda>k. (s + k) mod N) ` {0..<N}) = card {0..<N}"
      by (rule card_image) (rule ring_inj)
  qed
qed

lemma iterate_first:
  assumes "ac_alist ac = Some al" "\<not> ac_begun ac"
  shows "afs_iterate_addresses ac =
           (True, ac\<lparr>ac_begun := True, ac_responded := False, ac_addr := Some (ac_index ac)\<rparr>)"
  using assms by (simp add: afs_iterate_addresses_def)

lemma iterate_next:
  assumes "ac_alist ac = Some al" "ac_begun ac"
  shows "afs_iterate_addresses ac =
     (let i = (if ac_index ac + 1 = nr_addrs al then 0 else ac_index ac + 1)
      in if i = ac_start ac
         then (False, ac\<lparr>ac_index := i, ac_error := - EDESTADDRREQ\<rparr>)
         else (True, ac\<lparr>ac_index := i, ac_begun := True,
                        ac_responded := False, ac_addr := Some i\<rparr>))"
  using assms by (simp add: afs_iterate_addresses_def Let_def)

lemma after_calls_ring:
  assumes al: "ac_alist ac = Some al" and N: "nr_addrs al = N"
    and s: "ac_start ac = s" "ac_index ac = s" "s < N" and nb: "\<not> ac_begun ac"
  shows "k < N \<Longrightarrow>
     afs_iterate_addresses (after_calls k ac) =
       (True, ac\<lparr>ac_index := (s + k) mod N, ac_begun := True, ac_responded := False,
                  ac_addr := Some ((s + k) mod N)\<rparr>)"
proof (induction k)
  case 0
  then show ?case using iterate_first[OF al nb] s by simp
next
  case (Suc k)
  then have prev: "after_calls (Suc k) ac =
      ac\<lparr>ac_index := (s + k) mod N, ac_begun := True, ac_responded := False,
         ac_addr := Some ((s + k) mod N)\<rparr>" by simp
  have ne: "(s + Suc k) mod N \<noteq> s"
    using ring_step_ne[of s N "Suc k"] s Suc.prems by simp
  show ?case
    unfolding prev using al N s ne
    by (auto simp: iterate_next[where al = al] Let_def mod_Suc split: if_splits)
qed

lemma after_calls_exhausted:
  assumes al: "ac_alist ac = Some al" and N: "nr_addrs al = N" and pos: "1 \<le> N"
    and s: "ac_start ac = s" "ac_index ac = s" "s < N" and nb: "\<not> ac_begun ac"
  shows "afs_iterate_addresses (after_calls N ac) =
       (False, ac\<lparr>ac_index := s, ac_begun := True, ac_responded := False,
                  ac_addr := Some ((s + (N - 1)) mod N), ac_error := - EDESTADDRREQ\<rparr>)"
proof -
  obtain m where m: "N = Suc m" using pos by (cases N) auto
  have prev: "after_calls N ac =
      ac\<lparr>ac_index := (s + m) mod N, ac_begun := True, ac_responded := False,
         ac_addr := Some ((s + m) mod N)\<rparr>"
    using after_calls_ring[OF al N s nb, of m] m by simp
  have "(s + N) mod N = s" using s by simp
  then have nxt: "Suc (s + m) mod Suc m = s" using m by simp
  show ?thesis
    unfolding prev using al N s nxt m
    by (auto simp: iterate_next[where al = al] Let_def mod_Suc split: if_splits)
qed

subsection \<open>The counting pass\<close>

lemma count_stuck_aux:
  assumes "count_addrs tx delim p nr = Some r"
  shows "\<not> (p < length tx \<and> tx ! p = delim \<and> delim \<noteq> CHR 0x00)"
  by (rule count_addrs.raw_induct[where P = "\<lambda>tx delim p nr r.
         \<not> (p < length tx \<and> tx ! p = delim \<and> delim \<noteq> CHR 0x00)", OF _ assms])
     (auto split: if_splits)

lemma count_error:
  assumes "count_addrs tx delim p nr = Some c"
  shows "c = Inl e \<longrightarrow> e = - EINVAL"
  by (rule count_addrs.raw_induct[where P = "\<lambda>tx delim p nr c. c = Inl e \<longrightarrow> e = - EINVAL",
        OF _ assms])
     (auto split: if_splits bracket.splits option.splits)

lemma count_stuck:
  "p < length tx \<Longrightarrow> tx ! p = delim \<Longrightarrow> delim \<noteq> CHR 0x00 \<Longrightarrow>
     count_addrs tx delim p nr = None"
  using count_stuck_aux[of tx delim p nr] by (cases "count_addrs tx delim p nr") auto

text \<open>
  The counting pass never ends exactly when one of its turns starts at the delimiter;
  the extraction pass always ends, so this is also when the whole call does not return.
\<close>

lemma memchr_ge: "memchr tx p c n = Some r \<Longrightarrow> p \<le> r"
  by (induction n arbitrary: p) (auto split: if_splits dest: Suc_leD)

lemma skip_bracket_ge: "skip_bracket tx p = Goes p1 \<Longrightarrow> p \<le> p1"
  by (auto simp: skip_bracket_def split: if_splits option.splits dest!: memchr_ge)

lemma count_at_lt: "count_at tx delim p \<Longrightarrow> tx \<noteq> [] \<Longrightarrow> p < length tx"
  by (induction rule: count_at.induct) auto

lemma count_from_start:
  assumes "count_at tx delim p" and "\<forall>nr. count_addrs tx delim p nr = None"
  shows "\<forall>nr. count_addrs tx delim 0 nr = None"
  using assms
proof (induction rule: count_at.induct)
  case count_first
  then show ?case by simp
next
  case (count_next p p1 r)
  have "count_addrs tx delim p nr = None" for nr
    using count_next.hyps(2-6) count_next.prems
    by (subst count_addrs.simps) simp
  with count_next.IH show ?case by simp
qed

lemma count_returns:
  assumes clean: "\<forall>q. count_at tx delim q \<longrightarrow> tx ! q = delim \<longrightarrow> delim = CHR 0x00"
  shows "count_at tx delim p \<Longrightarrow> count_addrs tx delim p nr \<noteq> None"
proof (induction "length tx - p" arbitrary: p nr rule: less_induct)
  case less
  note unf = count_addrs.simps[of tx delim p nr]
  show ?case
  proof (cases "tx ! p = CHR 0x00 \<or> tx ! p = delim")
    case True
    with clean less.prems show ?thesis by (auto simp: unf)
  next
    case False
    show ?thesis
    proof (cases "skip_bracket tx p")
      case Malformed
      with False show ?thesis by (simp add: unf)
    next
      case Leave
      with False show ?thesis by (simp add: unf)
    next
      case (Goes p1)
      show ?thesis
      proof (cases "memchr tx p1 delim (length tx - p1)")
        case None
        with False Goes show ?thesis by (simp add: unf)
      next
        case (Some r)
        show ?thesis
        proof (cases "r + 1 < length tx")
          case True
          have "p \<le> r" using skip_bracket_ge[OF Goes] memchr_ge[OF Some] by simp
          with True have smaller: "length tx - (r + 1) < length tx - p" by simp
          have "count_at tx delim (r + 1)"
            using count_next[OF less.prems _ _ Goes Some True] False by simp
          from less.hyps[OF smaller this] False Goes Some True show ?thesis
            by (simp add: unf)
        next
          case no: False
          with False Goes Some show ?thesis by (simp add: unf)
        qed
      qed
    qed
  qed
qed

lemma count_hangs_iff:
  assumes "tx \<noteq> []"
  shows "count_addrs tx delim 0 0 = None \<longleftrightarrow>
     (\<exists>p. count_at tx delim p \<and> tx ! p = delim \<and> delim \<noteq> CHR 0x00)"
proof
  assume "count_addrs tx delim 0 0 = None"
  then show "\<exists>p. count_at tx delim p \<and> tx ! p = delim \<and> delim \<noteq> CHR 0x00"
    using count_returns[OF _ count_first, of tx delim 0] by blast
next
  assume "\<exists>p. count_at tx delim p \<and> tx ! p = delim \<and> delim \<noteq> CHR 0x00"
  then obtain p where p: "count_at tx delim p" "tx ! p = delim" "delim \<noteq> CHR 0x00" by blast
  from count_at_lt[OF p(1) assms] p have "\<forall>nr. count_addrs tx delim p nr = None"
    by (simp add: count_stuck)
  from count_from_start[OF p(1) this] show "count_addrs tx delim 0 0 = None" by simp
qed

lemma parse_hangs_iff:
  "afs_parse_text_addrs k tx delim service port = None \<longleftrightarrow>
     tx \<noteq> [] \<and>
     (\<exists>p. count_at tx (effective_delim tx delim) p \<and> tx ! p = effective_delim tx delim \<and>
          effective_delim tx delim \<noteq> CHR 0x00)"
proof (cases "tx = []")
  case True
  then show ?thesis by (simp add: afs_parse_text_addrs_def)
next
  case False
  have "afs_parse_text_addrs k tx delim service port = None \<longleftrightarrow>
      count_addrs tx (effective_delim tx delim) 0 0 = None"
    using False
    by (auto simp: afs_parse_text_addrs_def parse_passes_def split: option.splits sum.splits)
  with count_hangs_iff[OF False, of "effective_delim tx delim"] False show ?thesis by simp
qed

subsection \<open>Delimiters, ports and malformed segments\<close>

lemma memchr_in_set:
  "p + n \<le> length tx \<Longrightarrow> memchr tx p c n \<noteq> None \<longleftrightarrow> c \<in> set (take n (drop p tx))"
proof (induction n arbitrary: p)
  case 0
  then show ?case by simp
next
  case (Suc n)
  then have p: "p < length tx" by simp
  then have "take (Suc n) (drop p tx) = tx ! p # take n (drop (Suc p) tx)"
    by (simp add: take_Suc_conv_app_nth Cons_nth_drop_Suc[symmetric])
  moreover have "memchr tx (Suc p) c n \<noteq> None \<longleftrightarrow> c \<in> set (take n (drop (Suc p) tx))"
    using Suc.IH[of "Suc p"] Suc.prems by simp
  ultimately show ?case by auto
qed

lemma memchr_whole: "memchr tx 0 c (length tx) \<noteq> None \<longleftrightarrow> c \<in> set tx"
  using memchr_in_set[of 0 "length tx" tx c] by simp

lemma effective_delim_comma:
  "CHR '','' \<in> set tx \<or> CHR ''.'' \<notin> set tx \<Longrightarrow> effective_delim tx CHR '':'' = CHR '',''"
  using memchr_whole[of tx "CHR '',''"] memchr_whole[of tx "CHR ''.''"]
  by (auto simp: effective_delim_def)

lemma dec_from_ge: "v \<le> dec_from v ds"
  unfolding dec_from_def
proof (induction ds arbitrary: v)
  case Nil show ?case by simp
next
  case (Cons c ds)
  have "v \<le> v * 10 + (of_char c - 48)" by simp
  also have "\<dots> \<le> foldl (\<lambda>v c. v * 10 + (of_char c - 48)) (v * 10 + (of_char c - 48)) ds"
    by (rule Cons.IH)
  finally show ?case by simp
qed

lemma digit_run_step:
  "p < length tx \<Longrightarrow> isdigit (tx ! p) \<Longrightarrow> digit_run tx p = tx ! p # digit_run tx (p + 1)"
  by (simp add: digit_run_def Cons_nth_drop_Suc[symmetric])

lemma digit_run_empty:
  "digit_run tx p = [] \<longleftrightarrow> (p \<ge> length tx \<or> \<not> isdigit (tx ! p))"
proof (cases "p < length tx")
  case True
  then show ?thesis by (simp add: digit_run_def Cons_nth_drop_Suc[symmetric])
next
  case False
  then show ?thesis by (simp add: digit_run_def)
qed

lemma port_digits_range:
  "p < length tx \<Longrightarrow> isdigit (tx ! p) \<Longrightarrow>
     port_digits tx p v = None \<longleftrightarrow> dec_from v (digit_run tx p) > 65535"
proof (induction tx p v rule: port_digits.induct)
  case (1 tx p xport)
  let ?x = "xport * 10 + (of_char (tx ! p) - 48)"
  have run: "dec_from xport (digit_run tx p) = dec_from ?x (digit_run tx (p + 1))"
    using "1.prems" by (simp add: digit_run_step dec_from_def)
  show ?case
  proof (cases "?x > 65535")
    case True
    moreover have "?x \<le> dec_from ?x (digit_run tx (p + 1))" by (rule dec_from_ge)
    ultimately show ?thesis
      unfolding run by (subst port_digits.simps) (simp add: Let_def)
  next
    case small: False
    show ?thesis
    proof (cases "p + 1 < length tx \<and> isdigit (tx ! (p + 1))")
      case True
      with small "1.IH"[OF refl] show ?thesis
        unfolding run by (subst port_digits.simps) (simp add: Let_def)
    next
      case False
      then have "digit_run tx (p + 1) = []" using digit_run_empty[of tx "p + 1"] by auto
      with small False show ?thesis
        unfolding run by (subst port_digits.simps) (auto simp: Let_def dec_from_def)
    qed
  qed
qed

lemma memchr_lt: "memchr tx p c n = Some r \<Longrightarrow> r < p + n"
proof (induction n arbitrary: p)
  case 0
  then show ?case by simp
next
  case (Suc n)
  show ?case
  proof (cases "tx ! p = c")
    case True
    with Suc.prems show ?thesis by simp
  next
    case False
    with Suc.prems have "memchr tx (Suc p) c n = Some r" by simp
    from Suc.IH[OF this] show ?thesis by simp
  qed
qed

lemma scan_host_le: "scan_host tx delim q \<le> max q (length tx)"
  by (induction tx delim q rule: scan_host.induct) (subst scan_host.simps, auto)

lemma host_text_length:
  assumes "host_span tx delim p = Some span"
  shows "length (host_text tx span) = snd span - fst span"
proof (cases "tx ! p = CHR ''[''")
  case True
  with assms obtain r where "memchr tx (p + 1) CHR '']'' (length tx - (p + 1)) = Some r"
    "span = (p + 1, r)"
    by (auto simp: host_span_def)
  with memchr_lt[of tx "p + 1" "CHR '']''" "length tx - (p + 1)" r] show ?thesis
    by (auto simp: host_text_def)
next
  case False
  with assms have "span = (p, scan_host tx delim p)" by (auto simp: host_span_def)
  with scan_host_le[of tx delim p] show ?thesis by (auto simp: host_text_def)
qed

lemma unread_host_bad:
  assumes nd: "tx ! p \<noteq> delim"
    and span: "host_span tx delim p = Some span"
    and n4: "\<not> reads_whole (in4_pton k) (host_text tx span)"
    and n6: "\<not> reads_whole (in6_pton k) (host_text tx span)"
  shows "extract_segment k tx delim port p = Bad"
proof (cases "parse_host k (host_text tx span)")
  case None
  with nd span show ?thesis by (simp add: extract_segment_def)
next
  case (Some r)
  obtain x stop where r: "r = (x, stop)" by (cases r)
  from Some r n4 n6 have "stop \<noteq> length (host_text tx span)"
    by (auto simp: parse_host_def reads_whole_def split: option.splits)
  then have "stop \<noteq> snd span - fst span" by (simp add: host_text_length[OF span])
  with nd span Some r show ?thesis by (simp add: extract_segment_def)
qed

lemma bad_after_host:
  assumes "tx ! p \<noteq> delim" "host_span tx delim p = Some span"
    and "port_part tx delim port (after_host tx (snd span)) = None"
  shows "extract_segment k tx delim port p = Bad"
  using assms by (auto simp: extract_segment_def split: option.splits)

lemma bad_port_part:
  assumes plus: "r < length tx" "tx ! r = CHR ''+''"
    and bad: "digit_run tx (r + 1) = [] \<or> decimal (digit_run tx (r + 1)) > 65535"
  shows "port_part tx delim port r = None"
proof (cases "digit_run tx (r + 1) = []")
  case True
  then show ?thesis
    using plus digit_run_empty[of tx "r + 1"] by (auto simp: port_part_def)
next
  case False
  then have dig: "r + 1 < length tx" "isdigit (tx ! (r + 1))"
    using digit_run_empty[of tx "r + 1"] by auto
  from False bad have "dec_from 0 (digit_run tx (r + 1)) > 65535"
    by (simp add: decimal_def)
  with port_digits_range[OF dig, of 0] have "port_digits tx (r + 1) 0 = None" by simp
  with plus dig show ?thesis by (simp add: port_part_def)
qed

lemma malformed_is_bad:
  assumes "malformed_segment k tx delim p"
  shows "extract_segment k tx delim port p = Bad"
proof -
  from assms have nd: "tx ! p \<noteq> delim" by (simp add: malformed_segment_def)
  from assms consider (host) "neither_family k tx delim p"
    | (stray) "stray_after_host tx delim p"
    | (port) d where "port_suffix tx delim p = Some d"
        "digit_run tx d = [] \<or> decimal (digit_run tx d) > 65535"
    by (auto simp: malformed_segment_def split: option.splits)
  then show ?thesis
  proof cases
    case host
    show ?thesis
    proof (cases "host_span tx delim p")
      case None
      with nd show ?thesis by (simp add: extract_segment_def)
    next
      case (Some span)
      with host show ?thesis
        using unread_host_bad[OF nd Some] by (simp add: neither_family_def)
    qed
  next
    case stray
    then obtain span where span: "host_span tx delim p = Some span"
      and r: "after_host tx (snd span) < length tx"
        "tx ! after_host tx (snd span) \<noteq> CHR ''+''" "tx ! after_host tx (snd span) \<noteq> delim"
      by (auto simp: stray_after_host_def Let_def split: option.splits)
    from r have "port_part tx delim port (after_host tx (snd span)) = None"
      by (simp add: port_part_def)
    with nd span show ?thesis by (rule bad_after_host)
  next
    case port
    from port(1) obtain span where span: "host_span tx delim p = Some span"
      and plus: "after_host tx (snd span) < length tx"
        "tx ! after_host tx (snd span) = CHR ''+''"
      and d: "d = after_host tx (snd span) + 1"
      by (auto simp: port_suffix_def Let_def split: option.splits if_splits)
    from port(2) have "port_part tx delim port (after_host tx (snd span)) = None"
      unfolding d by (rule bad_port_part[OF plus])
    with nd span show ?thesis by (rule bad_after_host)
  qed
qed

text \<open>
  The predicate leaves out one way only in which a turn of the extraction loop fails:
  \<open>in4_pton\<close> reads a part of a host that \<open>in6_pton\<close> would read in full, and the loop,
  which asks \<open>in4_pton\<close> first, never asks \<open>in6_pton\<close>.
\<close>

lemma bad_is_malformed:
  assumes bad: "extract_segment k tx delim port p = Bad"
  shows "malformed_segment k tx delim p \<or>
    (\<exists>span. host_span tx delim p = Some span \<and> in4_pton k (host_text tx span) \<noteq> None \<and>
       \<not> reads_whole (in4_pton k) (host_text tx span) \<and>
       reads_whole (in6_pton k) (host_text tx span))"
proof (cases "malformed_segment k tx delim p")
  case True
  then show ?thesis by simp
next
  case False
  from bad have nd: "tx ! p \<noteq> delim" by (auto simp: extract_segment_def split: if_splits)
  from False nd have nf: "\<not> neither_family k tx delim p"
    and ns: "\<not> stray_after_host tx delim p"
    and np: "\<And>d. port_suffix tx delim p = Some d \<Longrightarrow>
        digit_run tx d \<noteq> [] \<and> decimal (digit_run tx d) \<le> 65535"
    by (auto simp: malformed_segment_def)
  from nf obtain span where span: "host_span tx delim p = Some span"
    and some: "reads_whole (in4_pton k) (host_text tx span) \<or>
        reads_whole (in6_pton k) (host_text tx span)"
    by (auto simp: neither_family_def split: option.splits)
  let ?r = "after_host tx (snd span)"
  have part: "port_part tx delim port ?r \<noteq> None"
  proof (cases "?r < length tx \<and> tx ! ?r = CHR ''+''")
    case True
    with span have "port_suffix tx delim p = Some (?r + 1)"
      by (simp add: port_suffix_def Let_def)
    from np[OF this] have run: "digit_run tx (?r + 1) \<noteq> []"
      and small: "dec_from 0 (digit_run tx (?r + 1)) \<le> 65535"
      by (simp_all add: decimal_def)
    from run have dig: "?r + 1 < length tx" "isdigit (tx ! (?r + 1))"
      using digit_run_empty[of tx "?r + 1"] by auto
    with port_digits_range[OF dig, of 0] small have "port_digits tx (?r + 1) 0 \<noteq> None"
      by simp
    with True dig show ?thesis by (simp add: port_part_def)
  next
    case False
    with ns span show ?thesis
      by (auto simp: stray_after_host_def port_part_def Let_def)
  qed
  have len: "length (host_text tx span) = snd span - fst span"
    by (rule host_text_length[OF span])
  show ?thesis
  proof (cases "reads_whole (in4_pton k) (host_text tx span)")
    case True
    with bad nd span part len have False
      by (auto simp: extract_segment_def parse_host_def reads_whole_def split: option.splits)
    then show ?thesis ..
  next
    case n4: False
    with some have w6: "reads_whole (in6_pton k) (host_text tx span)" by simp
    have "in4_pton k (host_text tx span) \<noteq> None"
    proof
      assume "in4_pton k (host_text tx span) = None"
      with bad nd span part len w6 show False
        by (auto simp: extract_segment_def parse_host_def reads_whole_def split: option.splits)
    qed
    with span n4 w6 show ?thesis by blast
  qed
qed

lemma extract_bad: "extract_segment k tx delim (unat port) p = Bad \<Longrightarrow>
    extract_addrs k tx delim port p alist = Inl (- EINVAL)"
  by (subst extract_addrs.simps) simp

lemma extract_from_start:
  assumes "segment_at k tx delim (unat port) p"
    and "\<forall>alist. extract_addrs k tx delim port p alist = Inl e"
  shows "\<forall>alist. extract_addrs k tx delim port 0 alist = Inl e"
  using assms
proof (induction rule: segment_at.induct)
  case seg_first
  then show ?case by simp
next
  case (seg_skip p p')
  have "extract_addrs k tx delim port p alist = Inl e" for alist
    using seg_skip.hyps(2,3) seg_skip.prems
    by (subst extract_addrs.simps) simp
  with seg_skip.IH show ?case by simp
next
  case (seg_entry p p' x xport)
  have "extract_addrs k tx delim port p alist = Inl e" for alist
    using seg_entry.hyps(2,3) seg_entry.prems
    by (subst extract_addrs.simps) simp
  with seg_entry.IH show ?case by simp
qed

lemma malformed_extract:
  assumes "segment_at k tx delim (unat port) p" "malformed_segment k tx delim p"
  shows "extract_addrs k tx delim port 0 alist = Inl (- EINVAL)"
proof -
  have "\<forall>alist. extract_addrs k tx delim port p alist = Inl (- EINVAL)"
    using malformed_is_bad[OF assms(2)] extract_bad by simp
  from extract_from_start[OF assms(1) this] show ?thesis by simp
qed

subsection \<open>The list a call returns\<close>

text \<open>A list that \<open>afs_parse_text_addrs\<close> returns satisfies the invariant.\<close>

lemma alloc_inv:
  "afs_alloc_addrlist k nr service port = Some alist \<Longrightarrow> alist_inv alist"
  by (auto simp: afs_alloc_addrlist_def alist_inv_def alist_slots_def ipv4_entries_def
        ipv6_entries_def Let_def split: if_splits)

lemma merge_host_inv: "alist_inv alist \<Longrightarrow> alist_inv (merge_host alist x xport)"
  by (cases x) (simp_all add: merge_host_def merge4_inv merge6_inv)

lemma extract_addrs_inv:
  "alist_inv alist \<Longrightarrow> extract_addrs k tx delim port p alist = Inr alist' \<Longrightarrow>
     alist_inv alist'"
proof (induction k tx delim port p alist rule: extract_addrs.induct)
  case (1 k tx delim port p alist)
  note unf = extract_addrs.simps[of k tx delim port p alist]
  show ?case
  proof (cases "extract_segment k tx delim (unat port) p")
    case Bad
    with "1.prems"(2) show ?thesis by (simp add: unf)
  next
    case (Skip p')
    show ?thesis
    proof (cases "p' < length tx")
      case True
      with Skip "1.prems"(2) have "extract_addrs k tx delim port p' alist = Inr alist'"
        by (simp add: unf)
      with "1.IH"(1)[OF Skip True "1.prems"(1)] show ?thesis .
    next
      case False
      with Skip "1.prems" show ?thesis by (simp add: unf)
    qed
  next
    case (Entry p' x xport)
    have inv: "alist_inv (merge_host alist x xport)"
      using "1.prems"(1) by (rule merge_host_inv)
    show ?thesis
    proof (cases "p' < length tx")
      case True
      with Entry "1.prems"(2)
      have "extract_addrs k tx delim port p' (merge_host alist x xport) = Inr alist'"
        by (simp add: unf)
      with "1.IH"(2)[OF Entry True inv] show ?thesis .
    next
      case False
      with Entry "1.prems"(2) inv show ?thesis by (simp add: unf)
    qed
  qed
qed

lemma parse_result_inv:
  "afs_parse_text_addrs k tx delim service port = Some (Inr alist) \<Longrightarrow> alist_inv alist"
  by (auto simp: afs_parse_text_addrs_def parse_passes_def
        split: if_splits option.splits sum.splits
        dest: alloc_inv extract_addrs_inv)

subsection \<open>Evaluating on a given text\<close>

text \<open>
  Two equations for the simplifier, used on numerals only: it unfolds \<open>memchr\<close> as long
  as the count and the character read are known.
\<close>

lemma memchr_unfold:
  "memchr tx p c n =
     (if n = 0 then None else if tx ! p = c then Some p else memchr tx (p + 1) c (n - 1))"
  by (cases n) auto

lemma replicate3: "replicate 3 x = [x, x, x]"
  by (simp add: eval_nat_numeral)

subsection \<open>Claims about the merge\<close>

text \<open>
  C4. \<open>afs_merge_fs_addr4\<close> and \<open>afs_merge_fs_addr6\<close> preserve the list invariant:
  the slots \<open>[0, nr_ipv4)\<close> are IPv4 entries in strictly ascending order of (address as an
  unsigned 32-bit number in host order, port), the slots \<open>[nr_ipv4, nr_addrs)\<close> are IPv6
  entries in strictly ascending order of (the sixteen address bytes compared by
  \<open>memcmp\<close>, port), no two entries of a segment have the same address and port, and
  \<open>nr_ipv4 \<le> nr_addrs \<le> max_addrs\<close>, the array having \<open>max_addrs\<close> slots.
\<close>

theorem merge_preserves_invariant:
  "alist_inv alist \<Longrightarrow>
     alist_inv (afs_merge_fs_addr4 alist xdr4 port) \<and>
     alist_inv (afs_merge_fs_addr6 alist xdr6 port)"
  by (simp add: merge4_inv merge6_inv)

theorem merge_preserves_invariant_witness:
  "alist_inv example_alist \<and>
   alist_inv (afs_merge_fs_addr4 example_alist (10, 0, 0, 0) 7000) \<and>
   alist_inv (afs_merge_fs_addr6 example_alist loopback6 7001)"
proof -
  have "alist_inv example_alist"
    by (simp add: alist_inv_def alist_slots_def example_alist_def ipv4_entries_def
          ipv6_entries_def is_ipv4_def is_ipv6_def key4_def key6_def slot_template_def)
  with merge_preserves_invariant[of example_alist "(10, 0, 0, 0)" 7000 loopback6]
    merge_preserves_invariant[of example_alist "(10, 0, 0, 0)" 7001 loopback6]
  show ?thesis by simp
qed

text \<open>
  C8. Merging is idempotent: on a list whose counters are in order and whose array has
  \<open>max_addrs\<close> slots, merging an address and port a second time with
  \<open>afs_merge_fs_addr4\<close> (or \<open>afs_merge_fs_addr6\<close>) leaves the list as the first merge
  left it, so \<open>nr_addrs\<close> is the same after both.
\<close>

theorem merge_idempotent:
  "alist_slots alist \<Longrightarrow>
     afs_merge_fs_addr4 (afs_merge_fs_addr4 alist xdr4 port) xdr4 port =
       afs_merge_fs_addr4 alist xdr4 port \<and>
     afs_merge_fs_addr6 (afs_merge_fs_addr6 alist xdr6 port) xdr6 port =
       afs_merge_fs_addr6 alist xdr6 port"
  by (simp add: merge4_idem merge6_idem)

theorem merge_idempotent_witness:
  "alist_slots example_alist \<and>
   afs_merge_fs_addr4 (afs_merge_fs_addr4 example_alist (10, 0, 0, 0) 7000) (10, 0, 0, 0) 7000 =
     afs_merge_fs_addr4 example_alist (10, 0, 0, 0) 7000 \<and>
   nr_addrs (afs_merge_fs_addr4 example_alist (10, 0, 0, 0) 7000) = 4 \<and>
   afs_merge_fs_addr6 (afs_merge_fs_addr6 example_alist loopback6 7001) loopback6 7001 =
     afs_merge_fs_addr6 example_alist loopback6 7001"
proof -
  have slots: "alist_slots example_alist"
    by (simp add: alist_slots_def example_alist_def)
  have "nr_addrs (afs_merge_fs_addr4 example_alist (10, 0, 0, 0) 7000) = 4"
    by (simp add: merge4_as_insert[OF slots] scan4.simps)
       (simp add: example_alist_def slot_template_def scan4.simps)
  with slots merge_idempotent[of example_alist "(10, 0, 0, 0)" 7000 loopback6]
    merge_idempotent[of example_alist "(10, 0, 0, 0)" 7001 loopback6]
  show ?thesis by simp
qed

text \<open>
  C9. A list whose \<open>nr_addrs\<close> equals its \<open>max_addrs\<close> is left exactly as it was by
  \<open>afs_merge_fs_addr4\<close> and by \<open>afs_merge_fs_addr6\<close>, whatever address and port are
  merged: both counters and every slot keep their values.
\<close>

theorem merge_full_unchanged:
  "nr_addrs alist = max_addrs alist \<Longrightarrow>
     afs_merge_fs_addr4 alist xdr4 port = alist \<and>
     afs_merge_fs_addr6 alist xdr6 port = alist"
  by (simp add: afs_merge_fs_addr4_def afs_merge_fs_addr6_def)

theorem merge_full_unchanged_witness:
  "nr_addrs (example_alist\<lparr>max_addrs := 3\<rparr>) = max_addrs (example_alist\<lparr>max_addrs := 3\<rparr>) \<and>
   afs_merge_fs_addr4 (example_alist\<lparr>max_addrs := 3\<rparr>) (10, 0, 0, 0) 7000 =
     example_alist\<lparr>max_addrs := 3\<rparr> \<and>
   afs_merge_fs_addr6 (example_alist\<lparr>max_addrs := 3\<rparr>) loopback6 7001 =
     example_alist\<lparr>max_addrs := 3\<rparr>"
  using merge_full_unchanged[of "example_alist\<lparr>max_addrs := 3\<rparr>" "(10, 0, 0, 0)" 7000 loopback6]
    merge_full_unchanged[of "example_alist\<lparr>max_addrs := 3\<rparr>" "(10, 0, 0, 0)" 7001 loopback6]
  by (simp add: example_alist_def)

subsection \<open>Claims about the cursor\<close>

text \<open>
  C2. On a list of \<open>N \<ge> 1\<close> populated entries, a cursor that has not begun and whose
  start and current index are both \<open>s < N\<close> is advanced by \<open>afs_iterate_addresses\<close> as
  follows: each of the first \<open>N\<close> calls returns true, call \<open>k + 1\<close> selecting slot
  \<open>(s + k) mod N\<close>; these slots are each index below \<open>N\<close> exactly once; and call
  \<open>N + 1\<close> returns false and leaves \<open>-EDESTADDRREQ\<close> as the cursor's error.
\<close>

theorem cursor_ring:
  assumes "ac_alist ac = Some alist" "nr_addrs alist = N" "1 \<le> N"
    and "ac_start ac = s" "ac_index ac = s" "s < N" "\<not> ac_begun ac"
  shows "(\<forall>k<N. fst (afs_iterate_addresses (after_calls k ac)) \<and>
                 ac_index (after_calls (Suc k) ac) = (s + k) mod N \<and>
                 ac_addr (after_calls (Suc k) ac) = Some ((s + k) mod N)) \<and>
         (\<lambda>k. (s + k) mod N) ` {0..<N} = {0..<N} \<and>
         inj_on (\<lambda>k. (s + k) mod N) {0..<N} \<and>
         \<not> fst (afs_iterate_addresses (after_calls N ac)) \<and>
         ac_error (after_calls (Suc N) ac) = - EDESTADDRREQ"
proof -
  have "fst (afs_iterate_addresses (after_calls k ac)) \<and>
        ac_index (after_calls (Suc k) ac) = (s + k) mod N \<and>
        ac_addr (after_calls (Suc k) ac) = Some ((s + k) mod N)" if "k < N" for k
    using after_calls_ring[OF assms(1,2,4,5,6,7) that] by simp
  moreover have "\<not> fst (afs_iterate_addresses (after_calls N ac)) \<and>
        ac_error (after_calls (Suc N) ac) = - EDESTADDRREQ"
    using after_calls_exhausted[OF assms] by simp
  ultimately show ?thesis
    using ring_image[of s N] ring_inj[of s N] by blast
qed

theorem cursor_ring_witness:
  "ac_alist example_cursor = Some example_alist \<and> nr_addrs example_alist = 3 \<and>
   ac_start example_cursor = 1 \<and> ac_index example_cursor = 1 \<and> \<not> ac_begun example_cursor \<and>
   ac_index (after_calls (Suc 0) example_cursor) = 1 \<and>
   ac_index (after_calls (Suc 1) example_cursor) = 2 \<and>
   ac_index (after_calls (Suc 2) example_cursor) = 0 \<and>
   fst (afs_iterate_addresses (after_calls 2 example_cursor)) \<and>
   \<not> fst (afs_iterate_addresses (after_calls 3 example_cursor)) \<and>
   ac_error (after_calls (Suc 3) example_cursor) = - EDESTADDRREQ"
proof -
  have pre: "ac_alist example_cursor = Some example_alist" "nr_addrs example_alist = 3"
    "ac_start example_cursor = 1" "ac_index example_cursor = 1" "\<not> ac_begun example_cursor"
    by (simp_all add: example_cursor_def example_alist_def)
  have ring: "(\<forall>k<3. fst (afs_iterate_addresses (after_calls k example_cursor)) \<and>
                 ac_index (after_calls (Suc k) example_cursor) = (1 + k) mod 3 \<and>
                 ac_addr (after_calls (Suc k) example_cursor) = Some ((1 + k) mod 3)) \<and>
         (\<lambda>k. (1 + k) mod 3) ` {0..<3} = {0..<3::nat} \<and>
         inj_on (\<lambda>k. (1 + k) mod 3) {0..<3::nat} \<and>
         \<not> fst (afs_iterate_addresses (after_calls 3 example_cursor)) \<and>
         ac_error (after_calls (Suc 3) example_cursor) = - EDESTADDRREQ"
    by (rule cursor_ring[OF pre(1,2) _ pre(3,4) _ pre(5)]) simp_all
  then have step: "fst (afs_iterate_addresses (after_calls k example_cursor)) \<and>
      ac_index (after_calls (Suc k) example_cursor) = (1 + k) mod 3" if "k < 3" for k
    using that by blast
  have small: "(0::nat) < 3" "(1::nat) < 3" "(2::nat) < 3" by simp_all
  have val: "(1 + 0) mod 3 = (1::nat)" "(1 + 1) mod 3 = (2::nat)" "(1 + 2) mod 3 = (0::nat)"
    by simp_all
  note steps = step[OF small(1), unfolded val] step[OF small(2), unfolded val]
    step[OF small(3), unfolded val]
  from ring have last: "\<not> fst (afs_iterate_addresses (after_calls 3 example_cursor))"
    "ac_error (after_calls (Suc 3) example_cursor) = - EDESTADDRREQ"
    by blast+
  from steps last pre show ?thesis by blast
qed

text \<open>
  C3. For a cursor bound to a list, \<open>afs_end_cursor\<close> returns the cursor's error code,
  and the list it releases is the bound list with one reference less and with the
  cursor's current index as its \<open>index\<close> exactly when \<open>responded\<close> is set and the current
  index differs from the start index; otherwise its \<open>index\<close> is unchanged.
\<close>

theorem end_cursor_hint:
  "ac_alist ac = Some alist \<Longrightarrow>
     fst (afs_end_cursor ac) = ac_error ac \<and>
     snd (snd (afs_end_cursor ac)) =
       Some (alist\<lparr>index := (if ac_responded ac \<and> ac_index ac \<noteq> ac_start ac
                               then ac_index ac else index alist),
                    usage := usage alist - 1\<rparr>)"
  by (simp add: afs_end_cursor_def afs_put_addrlist_def)

theorem end_cursor_hint_witness:
  "ac_alist (example_cursor\<lparr>ac_index := 2, ac_responded := True\<rparr>) = Some example_alist \<and>
   fst (afs_end_cursor (example_cursor\<lparr>ac_index := 2, ac_responded := True\<rparr>)) = 0 \<and>
   map_option index (snd (snd (afs_end_cursor (example_cursor\<lparr>ac_index := 2, ac_responded := True\<rparr>))))
     = Some 2 \<and>
   map_option index (snd (snd (afs_end_cursor (example_cursor\<lparr>ac_index := 2\<rparr>)))) = Some 1 \<and>
   map_option index (snd (snd (afs_end_cursor (example_cursor\<lparr>ac_responded := True\<rparr>)))) = Some 1"
  using end_cursor_hint[of "example_cursor\<lparr>ac_index := 2, ac_responded := True\<rparr>" example_alist]
    end_cursor_hint[of "example_cursor\<lparr>ac_index := 2\<rparr>" example_alist]
    end_cursor_hint[of "example_cursor\<lparr>ac_responded := True\<rparr>" example_alist]
  by (simp add: example_cursor_def example_alist_def)

text \<open>
  C10. Every call of \<open>afs_iterate_addresses\<close> that returns true leaves \<open>responded\<close>
  clear, \<open>begun\<close> set and the cursor pointing at the slot of its current index.
  Consequently \<open>afs_end_cursor\<close>, called on the cursor as any call of
  \<open>afs_iterate_addresses\<close> left it, does not change the \<open>index\<close> of the list, whatever
  \<open>responded\<close> was before that call.
\<close>

theorem iterate_clears_responded:
  "(fst (afs_iterate_addresses ac) \<longrightarrow>
      \<not> ac_responded (snd (afs_iterate_addresses ac)) \<and>
      ac_begun (snd (afs_iterate_addresses ac)) \<and>
      ac_addr (snd (afs_iterate_addresses ac)) = Some (ac_index (snd (afs_iterate_addresses ac)))) \<and>
   map_option index (snd (snd (afs_end_cursor (snd (afs_iterate_addresses ac))))) =
     map_option index (ac_alist ac)"
  by (auto simp: afs_iterate_addresses_def afs_end_cursor_def afs_put_addrlist_def Let_def
        split: option.splits)

theorem iterate_clears_responded_witness:
  "fst (afs_iterate_addresses (example_cursor\<lparr>ac_begun := True, ac_responded := True\<rparr>)) \<and>
   \<not> ac_responded (snd (afs_iterate_addresses (example_cursor\<lparr>ac_begun := True, ac_responded := True\<rparr>))) \<and>
   ac_addr (snd (afs_iterate_addresses (example_cursor\<lparr>ac_begun := True, ac_responded := True\<rparr>))) = Some 2 \<and>
   map_option index (snd (snd (afs_end_cursor
      (snd (afs_iterate_addresses (example_cursor\<lparr>ac_begun := True, ac_responded := True\<rparr>)))))) = Some 1"
proof -
  have "fst (afs_iterate_addresses (example_cursor\<lparr>ac_begun := True, ac_responded := True\<rparr>))"
    "ac_index (snd (afs_iterate_addresses (example_cursor\<lparr>ac_begun := True, ac_responded := True\<rparr>))) = 2"
    by (simp_all add: afs_iterate_addresses_def example_cursor_def example_alist_def)
  with iterate_clears_responded[of "example_cursor\<lparr>ac_begun := True, ac_responded := True\<rparr>"]
  show ?thesis by (simp add: example_cursor_def example_alist_def)
qed

subsection \<open>Claims about the parser\<close>

text \<open>
  C1. The claim is that \<open>afs_parse_text_addrs\<close> returns for every text. It does not
  return for a text in which a segment begins with the delimiter: the counting pass
  takes its \<open>continue\<close> without moving on, for ever. Shown here for a leading delimiter
  (the text \<open>","\<close>) and for two delimiters in a row (\<open>"10.0.0.1,,10.0.0.2"\<close>), with the
  delimiter \<open>','\<close>, whatever the kernel, the service and the port are.
\<close>

theorem parse_delimiter_hangs:
  "afs_parse_text_addrs k '','' CHR '','' service port = None \<and>
   afs_parse_text_addrs k ''10.0.0.1,,10.0.0.2'' CHR '','' service port = None"
proof
  show "afs_parse_text_addrs k '','' CHR '','' service port = None"
    by (simp add: afs_parse_text_addrs_def parse_passes_def effective_delim_def count_stuck)
next
  have "count_addrs ''10.0.0.1,,10.0.0.2'' CHR '','' 0 0 = None"
    by (subst count_addrs.simps) (simp add: skip_bracket_def memchr_unfold count_stuck)
  then show "afs_parse_text_addrs k ''10.0.0.1,,10.0.0.2'' CHR '','' service port = None"
    by (simp add: afs_parse_text_addrs_def parse_passes_def effective_delim_def)
qed

theorem parse_delimiter_hangs_witness:
  "afs_parse_text_addrs example_kernel '','' CHR '','' 52 7003 = None \<and>
   afs_parse_text_addrs example_kernel ''10.0.0.1,,10.0.0.2'' CHR '','' 52 7003 = None"
  using parse_delimiter_hangs[of example_kernel 52 7003] by simp

text \<open>
  C5. With a kernel whose allocation succeeds, that keeps at least three addresses, and
  whose address parsers read the hosts \<open>10.0.0.2\<close>, \<open>10.0.0.1\<close> and \<open>::1\<close> as those
  addresses, parsing \<open>"10.0.0.2,10.0.0.1,[::1]+7000"\<close> with the delimiter \<open>','\<close> and the
  default port \<open>port\<close> returns a list with \<open>nr_ipv4 = 2\<close> and \<open>nr_addrs = 3\<close> whose
  entries are, in order, the IPv4 endpoint 10.0.0.1 with the default port, the IPv4
  endpoint 10.0.0.2 with the default port, and the IPv6 endpoint ::1 with port 7000.
\<close>

theorem parse_example:
  assumes "kzalloc_ok k" "3 \<le> AFS_MAX_ADDRESSES k"
    "in4_pton k ''10.0.0.2'' = Some ((10, 0, 0, 2), 8)"
    "in4_pton k ''10.0.0.1'' = Some ((10, 0, 0, 1), 8)"
    "in4_pton k ''::1'' = None"
    "in6_pton k ''::1'' = Some (loopback6, 3)"
  shows "afs_parse_text_addrs k ''10.0.0.2,10.0.0.1,[::1]+7000'' CHR '','' service port =
     Some (Inr \<lparr>usage = 1, nr_addrs = 3, index = 0, nr_ipv4 = 2, max_addrs = 3,
                addrs = [(slot_template service port)
                           \<lparr>transport_len := sizeof_sin, sin_family := AF_INET,
                              sin_port := htons port, sin_addr := (10, 0, 0, 1)\<rparr>,
                         (slot_template service port)
                           \<lparr>transport_len := sizeof_sin, sin_family := AF_INET,
                              sin_port := htons port, sin_addr := (10, 0, 0, 2)\<rparr>,
                         (slot_template service port)
                           \<lparr>transport_len := sizeof_sin6, sin_family := AF_INET6,
                              sin_port := htons 7000,
                              sin6_addr := loopback6\<rparr>]\<rparr>)"
proof -
  let ?T = "''10.0.0.2,10.0.0.1,[::1]+7000''"
  let ?t = "slot_template service port"
  have cnt: "count_addrs ?T CHR '','' 0 0 = Some (Inr 3)"
    by (simp add: count_addrs.simps skip_bracket_def memchr_unfold)
  have alloc: "afs_alloc_addrlist k 3 service port =
      Some \<lparr>usage = 1, nr_addrs = 0, index = 0, nr_ipv4 = 0, max_addrs = 3, addrs = [?t, ?t, ?t]\<rparr>"
    using assms(1,2) by (simp add: afs_alloc_addrlist_def replicate3)
  have seg0: "extract_segment k ?T CHR '','' (unat port) 0 = Entry 9 (Host4 (10, 0, 0, 2)) (unat port)"
    using assms
    by (simp add: extract_segment_def host_span_def host_text_def after_host_def
          scan_host.simps parse_host_def port_part_def)
  have seg9: "extract_segment k ?T CHR '','' (unat port) 9 = Entry 18 (Host4 (10, 0, 0, 1)) (unat port)"
    using assms
    by (simp add: extract_segment_def host_span_def host_text_def after_host_def
          scan_host.simps parse_host_def port_part_def)
  have seg18: "extract_segment k ?T CHR '','' (unat port) 18 =
      Entry 28 (Host6 loopback6) 7000"
    using assms
    by (simp add: extract_segment_def host_span_def host_text_def after_host_def
          parse_host_def port_part_def memchr_unfold port_digits.simps isdigit_def Let_def)
  define e1 where "e1 = ?t\<lparr>transport_len := sizeof_sin, sin_family := AF_INET,
                            sin_port := htons port, sin_addr := (10, 0, 0, 1)\<rparr>"
  define e2 where "e2 = ?t\<lparr>transport_len := sizeof_sin, sin_family := AF_INET,
                            sin_port := htons port, sin_addr := (10, 0, 0, 2)\<rparr>"
  define e3 where "e3 = ?t\<lparr>transport_len := sizeof_sin6, sin_family := AF_INET6,
                            sin_port := htons 7000,
                            sin6_addr := loopback6\<rparr>"
  define l0 where "l0 = \<lparr>usage = 1, nr_addrs = 0, index = 0, nr_ipv4 = 0, max_addrs = 3,
                         addrs = [?t, ?t, ?t]\<rparr>"
  define l1 where "l1 = \<lparr>usage = 1, nr_addrs = 1, index = 0, nr_ipv4 = 1, max_addrs = 3,
                         addrs = [e2, ?t, ?t]\<rparr>"
  define l2 where "l2 = \<lparr>usage = 1, nr_addrs = 2, index = 0, nr_ipv4 = 2, max_addrs = 3,
                         addrs = [e1, e2, ?t]\<rparr>"
  define l3 where "l3 = \<lparr>usage = 1, nr_addrs = 3, index = 0, nr_ipv4 = 2, max_addrs = 3,
                         addrs = [e1, e2, e3]\<rparr>"
  have m1: "merge_host l0 (Host4 (10, 0, 0, 2)) (unat port) = l1"
    by (simp add: l0_def l1_def e2_def merge_host_def merge4_as_insert alist_slots_def scan4.simps)
  have m2: "merge_host l1 (Host4 (10, 0, 0, 1)) (unat port) = l2"
    by (simp add: l1_def l2_def e1_def e2_def merge_host_def merge4_as_insert alist_slots_def
          scan4.simps)
  have m3: "merge_host l2 (Host6 loopback6) 7000 = l3"
    by (simp add: l2_def l3_def e3_def merge_host_def merge6_as_insert alist_slots_def
          scan6.simps)
  have "extract_addrs k ?T CHR '','' port 18 l2 = Inr l3"
    by (subst extract_addrs.simps) (simp add: seg18 m3)
  then have "extract_addrs k ?T CHR '','' port 9 l1 = Inr l3"
    by (subst extract_addrs.simps) (simp add: seg9 m2)
  then have ext: "extract_addrs k ?T CHR '','' port 0 l0 = Inr l3"
    by (subst extract_addrs.simps) (simp add: seg0 m1)
  have alloc': "afs_alloc_addrlist k 3 service port = Some l0"
    using alloc by (simp add: l0_def)
  show ?thesis
    by (simp add: afs_parse_text_addrs_def parse_passes_def effective_delim_def cnt alloc' ext)
       (simp add: l3_def e1_def e2_def e3_def)
qed

theorem parse_example_witness:
  "kzalloc_ok example_kernel \<and> 3 \<le> AFS_MAX_ADDRESSES example_kernel \<and>
   in4_pton example_kernel ''10.0.0.2'' = Some ((10, 0, 0, 2), 8) \<and>
   in4_pton example_kernel ''10.0.0.1'' = Some ((10, 0, 0, 1), 8) \<and>
   in4_pton example_kernel ''::1'' = None \<and>
   in6_pton example_kernel ''::1'' = Some (loopback6, 3) \<and>
   map_option (map_sum id (\<lambda>alist. (nr_ipv4 alist, nr_addrs alist, map key4 (ipv4_entries alist),
                                      map key6 (ipv6_entries alist))))
     (afs_parse_text_addrs example_kernel ''10.0.0.2,10.0.0.1,[::1]+7000'' CHR '','' 52 7003) =
     Some (Inr (2, 3, [(167772161, 7003), (167772162, 7003)], [(loopback6, 7000)]))"
proof -
  have pre: "kzalloc_ok example_kernel" "3 \<le> AFS_MAX_ADDRESSES example_kernel"
    "in4_pton example_kernel ''10.0.0.2'' = Some ((10, 0, 0, 2), 8)"
    "in4_pton example_kernel ''10.0.0.1'' = Some ((10, 0, 0, 1), 8)"
    "in4_pton example_kernel ''::1'' = None"
    "in6_pton example_kernel ''::1'' = Some (loopback6, 3)"
    by (simp_all add: example_kernel_def)
  show ?thesis
    using pre by (simp add: parse_example[OF pre] ipv4_entries_def
        ipv6_entries_def key4_def key6_def)
qed

text \<open>
  C6. When the delimiter passed is \<open>':'\<close> and the text contains a \<open>','\<close> or contains no
  \<open>'.'\<close>, the delimiter chosen is \<open>','\<close> and both passes run with it. In particular,
  with a kernel whose allocation succeeds, that keeps at least one address, and whose
  parsers read \<open>::1\<close> as the IPv6 loopback address and not as an IPv4 address, parsing
  \<open>"::1"\<close> with the delimiter \<open>':'\<close> returns a list of exactly one entry, the IPv6
  address ::1 with the default port.
\<close>

theorem delimiter_disambiguation:
  "(CHR '','' \<in> set text \<or> CHR ''.'' \<notin> set text \<longrightarrow>
      effective_delim text CHR '':'' = CHR '','' \<and>
      afs_parse_text_addrs k text CHR '':'' service port =
        (if length text = 0 then Some (Inl (- EDESTADDRREQ))
         else parse_passes k text CHR '','' service port)) \<and>
   (kzalloc_ok k \<and> 1 \<le> AFS_MAX_ADDRESSES k \<and>
    in4_pton k ''::1'' = None \<and> in6_pton k ''::1'' = Some (loopback6, 3) \<longrightarrow>
      afs_parse_text_addrs k ''::1'' CHR '':'' service port =
        Some (Inr \<lparr>usage = 1, nr_addrs = 1, index = 0, nr_ipv4 = 0, max_addrs = 1,
                   addrs = [(slot_template service port)
                              \<lparr>transport_len := sizeof_sin6, sin_family := AF_INET6,
                                 sin_port := htons port, sin6_addr := loopback6\<rparr>]\<rparr>))"
proof (intro conjI impI)
  assume "CHR '','' \<in> set text \<or> CHR ''.'' \<notin> set text"
  then show comma: "effective_delim text CHR '':'' = CHR '',''"
    by (rule effective_delim_comma)
  then show "afs_parse_text_addrs k text CHR '':'' service port =
        (if length text = 0 then Some (Inl (- EDESTADDRREQ))
         else parse_passes k text CHR '','' service port)"
    by (simp add: afs_parse_text_addrs_def)
next
  assume k: "kzalloc_ok k \<and> 1 \<le> AFS_MAX_ADDRESSES k \<and>
    in4_pton k ''::1'' = None \<and> in6_pton k ''::1'' = Some (loopback6, 3)"
  let ?t = "slot_template service port"
  define l0 where "l0 = \<lparr>usage = 1, nr_addrs = 0, index = 0, nr_ipv4 = 0, max_addrs = 1,
                         addrs = [?t]\<rparr>"
  define l1 where "l1 = \<lparr>usage = 1, nr_addrs = 1, index = 0, nr_ipv4 = 0, max_addrs = 1,
                   addrs = [?t\<lparr>transport_len := sizeof_sin6, sin_family := AF_INET6,
                                 sin_port := htons port, sin6_addr := loopback6\<rparr>]\<rparr>"
  have delim: "effective_delim ''::1'' CHR '':'' = CHR '',''"
    by (rule effective_delim_comma) simp
  have cnt: "count_addrs ''::1'' CHR '','' 0 0 = Some (Inr 1)"
    by (simp add: count_addrs.simps skip_bracket_def memchr_unfold)
  have alloc: "afs_alloc_addrlist k (Suc 0) service port = Some l0"
    using k by (simp add: afs_alloc_addrlist_def l0_def)
  have seg: "extract_segment k ''::1'' CHR '','' (unat port) 0 = Entry 3 (Host6 loopback6) (unat port)"
    using k
    by (simp add: extract_segment_def host_span_def host_text_def after_host_def
          scan_host.simps parse_host_def port_part_def)
  have mrg: "merge_host l0 (Host6 loopback6) (unat port) = l1"
    by (simp add: l0_def l1_def merge_host_def merge6_as_insert alist_slots_def scan6.simps)
  have ext: "extract_addrs k ''::1'' CHR '','' port 0 l0 = Inr l1"
    by (subst extract_addrs.simps) (simp add: seg mrg)
  show "afs_parse_text_addrs k ''::1'' CHR '':'' service port =
        Some (Inr \<lparr>usage = 1, nr_addrs = 1, index = 0, nr_ipv4 = 0, max_addrs = 1,
                   addrs = [(slot_template service port)
                              \<lparr>transport_len := sizeof_sin6, sin_family := AF_INET6,
                                 sin_port := htons port, sin6_addr := loopback6\<rparr>]\<rparr>)"
    by (simp add: afs_parse_text_addrs_def parse_passes_def delim cnt alloc ext)
       (simp add: l1_def)
qed

theorem delimiter_disambiguation_witness:
  "CHR ''.'' \<notin> set ''::1'' \<and> effective_delim ''::1'' CHR '':'' = CHR '','' \<and>
   kzalloc_ok example_kernel \<and> 1 \<le> AFS_MAX_ADDRESSES example_kernel \<and>
   in4_pton example_kernel ''::1'' = None \<and>
   in6_pton example_kernel ''::1'' = Some (loopback6, 3) \<and>
   afs_parse_text_addrs example_kernel ''::1'' CHR '':'' 52 7003 =
     Some (Inr \<lparr>usage = 1, nr_addrs = 1, index = 0, nr_ipv4 = 0, max_addrs = 1,
                addrs = [(slot_template 52 7003)
                           \<lparr>transport_len := sizeof_sin6, sin_family := AF_INET6,
                              sin_port := htons 7003, sin6_addr := loopback6\<rparr>]\<rparr>)"
proof -
  have pre: "CHR ''.'' \<notin> set ''::1''" "kzalloc_ok example_kernel"
    "1 \<le> AFS_MAX_ADDRESSES example_kernel" "in4_pton example_kernel ''::1'' = None"
    "in6_pton example_kernel ''::1'' = Some (loopback6, 3)"
    by (simp_all add: example_kernel_def)
  with delimiter_disambiguation[of "''::1''" example_kernel 52 7003] show ?thesis
    by blast
qed

text \<open>
  C7, as amended. Parsing a text of length zero returns \<open>-EDESTADDRREQ\<close>. When a
  segment of a text that is not empty is malformed (it parses as neither family: its
  bracket is not closed, neither parser reads its host in full, or something other than
  a \<open>+\<close> or the delimiter follows its host; or the \<open>+\<close> after its host is followed by
  no digit or by digits that spell more than 65535), the call returns whenever its
  counting pass ends, and what it returns is never a list: it is \<open>-EINVAL\<close>, or
  \<open>-ENOMEM\<close> when the allocation of the list failed.
\<close>

theorem parse_errors:
  "afs_parse_text_addrs k [] delim service port = Some (Inl (- EDESTADDRREQ)) \<and>
   (text \<noteq> [] \<and>
    segment_at k text (effective_delim text delim) (unat port) p \<and>
    malformed_segment k text (effective_delim text delim) p \<longrightarrow>
      (\<forall>r. afs_parse_text_addrs k text delim service port = Some r \<longrightarrow>
         r = Inl (- EINVAL) \<or> (\<not> kzalloc_ok k \<and> r = Inl (- ENOMEM))) \<and>
      (count_addrs text (effective_delim text delim) 0 0 \<noteq> None \<longrightarrow>
         afs_parse_text_addrs k text delim service port \<noteq> None))"
proof (intro conjI impI allI)
  show "afs_parse_text_addrs k [] delim service port = Some (Inl (- EDESTADDRREQ))"
    by (simp add: afs_parse_text_addrs_def)
next
  fix r
  assume a: "text \<noteq> [] \<and>
    segment_at k text (effective_delim text delim) (unat port) p \<and>
    malformed_segment k text (effective_delim text delim) p"
    and r: "afs_parse_text_addrs k text delim service port = Some r"
  from a have bad: "extract_addrs k text (effective_delim text delim) port 0 l = Inl (- EINVAL)"
    for l
    using malformed_extract by blast
  note unf = afs_parse_text_addrs_def parse_passes_def afs_alloc_addrlist_def
  show "r = Inl (- EINVAL) \<or> (\<not> kzalloc_ok k \<and> r = Inl (- ENOMEM))"
  proof (cases "count_addrs text (effective_delim text delim) 0 0")
    case None
    with a r show ?thesis by (simp add: unf)
  next
    case (Some c)
    show ?thesis
    proof (cases c)
      case (Inl e)
      have "e = - EINVAL"
        using Some Inl count_error by blast
      with a r Some Inl show ?thesis by (simp add: unf)
    next
      case (Inr nr)
      with a r Some bad show ?thesis by (auto simp: unf Let_def split: if_splits)
    qed
  qed
next
  assume a: "text \<noteq> [] \<and>
    segment_at k text (effective_delim text delim) (unat port) p \<and>
    malformed_segment k text (effective_delim text delim) p"
    and c: "count_addrs text (effective_delim text delim) 0 0 \<noteq> None"
  then show "afs_parse_text_addrs k text delim service port \<noteq> None"
    by (auto simp: afs_parse_text_addrs_def parse_passes_def split: option.splits sum.splits)
qed

text \<open>
  Three texts, one for each way of being malformed: a port above 65535 in the second
  segment, a host that \<open>in4_pton\<close> reads in part only, and a character after the closing
  bracket.
\<close>

theorem parse_errors_witness:
  "(segment_at example_kernel ''10.0.0.1,10.0.0.2+65536'' CHR '','' 7003 9 \<and>
    malformed_segment example_kernel ''10.0.0.1,10.0.0.2+65536'' CHR '','' 9 \<and>
    count_addrs ''10.0.0.1,10.0.0.2+65536'' CHR '','' 0 0 = Some (Inr 2) \<and>
    kzalloc_ok example_kernel \<and>
    afs_parse_text_addrs example_kernel ''10.0.0.1,10.0.0.2+65536'' CHR '','' 52 7003 =
      Some (Inl (- EINVAL))) \<and>
   (in4_pton example_kernel_prefix ''10.0.0.1x'' = Some ((10, 0, 0, 1), 8) \<and>
    segment_at example_kernel_prefix ''10.0.0.1x'' CHR '','' 7003 0 \<and>
    malformed_segment example_kernel_prefix ''10.0.0.1x'' CHR '','' 0 \<and>
    count_addrs ''10.0.0.1x'' CHR '','' 0 0 = Some (Inr 1) \<and>
    kzalloc_ok example_kernel_prefix \<and>
    afs_parse_text_addrs example_kernel_prefix ''10.0.0.1x'' CHR '','' 52 7003 =
      Some (Inl (- EINVAL))) \<and>
   (in6_pton example_kernel ''::1'' = Some (loopback6, 3) \<and>
    segment_at example_kernel ''[::1]x'' CHR '','' 7003 0 \<and>
    malformed_segment example_kernel ''[::1]x'' CHR '','' 0 \<and>
    count_addrs ''[::1]x'' CHR '','' 0 0 = Some (Inr 1) \<and>
    afs_parse_text_addrs example_kernel ''[::1]x'' CHR '','' 52 7003 =
      Some (Inl (- EINVAL)))"
proof -
  have p: "unat (7003 :: u16) = 7003" by simp
  have ok: "kzalloc_ok example_kernel" "kzalloc_ok example_kernel_prefix"
    by (simp_all add: example_kernel_def example_kernel_prefix_def)
  have pton: "in4_pton example_kernel_prefix ''10.0.0.1x'' = Some ((10, 0, 0, 1), 8)"
    "in6_pton example_kernel ''::1'' = Some (loopback6, 3)"
    by (simp_all add: example_kernel_def example_kernel_prefix_def)
  let ?T = "''10.0.0.1,10.0.0.2+65536''"
  have first: "afs_parse_text_addrs example_kernel ?T CHR '','' 52 7003 = Some (Inl (- EINVAL))"
    and seg: "segment_at example_kernel ?T CHR '','' 7003 9"
    and mal: "malformed_segment example_kernel ?T CHR '','' 9"
    and cnt: "count_addrs ?T CHR '','' 0 0 = Some (Inr 2)"
  proof -
    have d: "effective_delim ?T CHR '','' = CHR '',''" by (simp add: effective_delim_def)
    show cnt: "count_addrs ?T CHR '','' 0 0 = Some (Inr 2)"
      by (simp add: count_addrs.simps skip_bracket_def memchr_unfold)
    show seg: "segment_at example_kernel ?T CHR '','' 7003 9"
    proof (rule segment_at.seg_entry[OF segment_at.seg_first])
      show "extract_segment example_kernel ?T CHR '','' 7003 0 =
          Entry 9 (Host4 (10, 0, 0, 1)) 7003"
        by (simp add: extract_segment_def host_span_def host_text_def after_host_def
              scan_host.simps parse_host_def port_part_def example_kernel_def)
    qed simp
    show mal: "malformed_segment example_kernel ?T CHR '','' 9"
      by (simp add: malformed_segment_def neither_family_def stray_after_host_def
            port_suffix_def reads_whole_def host_span_def host_text_def after_host_def
            scan_host.simps example_kernel_def digit_run_def decimal_def dec_from_def
            isdigit_def)
    from parse_errors[of example_kernel "CHR '',''" 52 7003 ?T 9, unfolded d p] seg mal cnt ok
    have "\<forall>r. afs_parse_text_addrs example_kernel ?T CHR '','' 52 7003 = Some r \<longrightarrow>
            r = Inl (- EINVAL)"
      and "afs_parse_text_addrs example_kernel ?T CHR '','' 52 7003 \<noteq> None"
      by auto
    then show "afs_parse_text_addrs example_kernel ?T CHR '','' 52 7003 = Some (Inl (- EINVAL))"
      by auto
  qed
  let ?U = "''10.0.0.1x''"
  have second: "afs_parse_text_addrs example_kernel_prefix ?U CHR '','' 52 7003 =
      Some (Inl (- EINVAL))"
    and seg2: "segment_at example_kernel_prefix ?U CHR '','' 7003 0"
    and mal2: "malformed_segment example_kernel_prefix ?U CHR '','' 0"
    and cnt2: "count_addrs ?U CHR '','' 0 0 = Some (Inr 1)"
  proof -
    have d: "effective_delim ?U CHR '','' = CHR '',''" by (simp add: effective_delim_def)
    show cnt: "count_addrs ?U CHR '','' 0 0 = Some (Inr 1)"
      by (simp add: count_addrs.simps skip_bracket_def memchr_unfold)
    show seg: "segment_at example_kernel_prefix ?U CHR '','' 7003 0"
      by (rule segment_at.seg_first)
    show mal: "malformed_segment example_kernel_prefix ?U CHR '','' 0"
      by (simp add: malformed_segment_def neither_family_def reads_whole_def host_span_def
            host_text_def scan_host.simps example_kernel_def example_kernel_prefix_def)
    from parse_errors[of example_kernel_prefix "CHR '',''" 52 7003 ?U 0, unfolded d p]
      seg mal cnt ok
    have "\<forall>r. afs_parse_text_addrs example_kernel_prefix ?U CHR '','' 52 7003 = Some r \<longrightarrow>
            r = Inl (- EINVAL)"
      and "afs_parse_text_addrs example_kernel_prefix ?U CHR '','' 52 7003 \<noteq> None"
      by auto
    then show "afs_parse_text_addrs example_kernel_prefix ?U CHR '','' 52 7003 =
        Some (Inl (- EINVAL))"
      by auto
  qed
  let ?V = "''[::1]x''"
  have third: "afs_parse_text_addrs example_kernel ?V CHR '','' 52 7003 = Some (Inl (- EINVAL))"
    and seg3: "segment_at example_kernel ?V CHR '','' 7003 0"
    and mal3: "malformed_segment example_kernel ?V CHR '','' 0"
    and cnt3: "count_addrs ?V CHR '','' 0 0 = Some (Inr 1)"
  proof -
    have d: "effective_delim ?V CHR '','' = CHR '',''" by (simp add: effective_delim_def)
    show cnt: "count_addrs ?V CHR '','' 0 0 = Some (Inr 1)"
      by (simp add: count_addrs.simps skip_bracket_def memchr_unfold)
    show seg: "segment_at example_kernel ?V CHR '','' 7003 0"
      by (rule segment_at.seg_first)
    show mal: "malformed_segment example_kernel ?V CHR '','' 0"
      by (simp add: malformed_segment_def neither_family_def stray_after_host_def
            reads_whole_def host_span_def host_text_def after_host_def memchr_unfold
            example_kernel_def)
    from parse_errors[of example_kernel "CHR '',''" 52 7003 ?V 0, unfolded d p] seg mal cnt ok
    have "\<forall>r. afs_parse_text_addrs example_kernel ?V CHR '','' 52 7003 = Some r \<longrightarrow>
            r = Inl (- EINVAL)"
      and "afs_parse_text_addrs example_kernel ?V CHR '','' 52 7003 \<noteq> None"
      by auto
    then show "afs_parse_text_addrs example_kernel ?V CHR '','' 52 7003 = Some (Inl (- EINVAL))"
      by auto
  qed
  from first seg mal cnt second seg2 mal2 cnt2 third seg3 mal3 cnt3 ok pton
  show ?thesis by simp
qed

text \<open>
  C7 as it is stated fails when the allocation fails: the text \<open>"x"\<close> has a segment that
  parses as neither family, and the call returns \<open>-ENOMEM\<close>, not \<open>-EINVAL\<close>.
\<close>

theorem parse_errors_counterexample:
  "segment_at example_kernel_nomem ''x'' CHR '','' 7003 0 \<and>
   malformed_segment example_kernel_nomem ''x'' CHR '','' 0 \<and>
   afs_parse_text_addrs example_kernel_nomem ''x'' CHR '','' 52 7003 = Some (Inl (- ENOMEM)) \<and>
   afs_parse_text_addrs example_kernel_nomem ''x'' CHR '','' 52 7003 \<noteq> Some (Inl (- EINVAL))"
proof -
  have "segment_at example_kernel_nomem ''x'' CHR '','' 7003 0"
    by (rule segment_at.seg_first)
  moreover have "malformed_segment example_kernel_nomem ''x'' CHR '','' 0"
    by (simp add: malformed_segment_def neither_family_def reads_whole_def host_span_def
          host_text_def scan_host.simps example_kernel_def example_kernel_nomem_def)
  moreover have "count_addrs ''x'' CHR '','' 0 0 = Some (Inr 1)"
    by (simp add: count_addrs.simps skip_bracket_def memchr_unfold)
  then have "afs_parse_text_addrs example_kernel_nomem ''x'' CHR '','' 52 7003 =
      Some (Inl (- ENOMEM))"
    by (simp add: afs_parse_text_addrs_def parse_passes_def effective_delim_def
          afs_alloc_addrlist_def example_kernel_def example_kernel_nomem_def)
  ultimately show ?thesis by (simp add: ENOMEM_def EINVAL_def)
qed

end
